theory Spec2Isabelle
  imports Complex_Main "HOL-Library.Sublist"
begin

section \<open>Data model\<close>

text \<open>
  The tables are those of the Prisma migrations: \<open>test_users\<close>, \<open>test_orders\<close>,
  \<open>audit_logs\<close> and \<open>anomaly_logs\<close>. Only the columns that
  \<open>AnomalyDetectionService\<close> reads or writes are kept. A \<open>Date\<close> is its number of
  milliseconds since the epoch, as \<open>Date.now()\<close> returns it. \<open>total_amount\<close>
  (DOUBLE PRECISION, a JavaScript number) is a finite IEEE 754 double, given by its exact
  value; the arithmetic on amounts rounds as the doubles do (section on double precision
  below). \<open>include: { user: true }\<close> joins each order with its purchaser, whose name is
  used in the text of the messages only; the foreign key \<open>test_orders_user_id_fkey\<close>
  makes the join total.
\<close>

type_synonym millis = int

record test_user =
  u_id :: string
  username :: string
  email :: string
  role :: string
  is_active :: bool

record test_order =
  o_id :: string
  o_user_id :: string
  status :: string
  total_amount :: real
  created_at :: millis

record audit_log =
  user_id :: "string option"
  action :: string
  resource :: string
  ip_address :: string
  response_status :: int
  timestamp :: millis

datatype severity = Low | Medium | High

text \<open>The \<open>details\<close> JSON document of a finding, one shape per detector.\<close>

datatype anomaly_details =
  HighPurchaseDetails string real real
| AuthFailureDetails string nat
| UnusualAccessDetails "string option" "string list" "string list"

record anomaly_log =
  anomaly_type :: string
  a_severity :: severity
  a_user_id :: "string option"
  details :: anomaly_details
  detected_at :: millis
  is_resolved :: bool
  resolved_at :: "millis option"
  resolved_by :: "string option"
  a_notes :: "string option"

text \<open>
  What \<open>sendNotification\<close> is called with: the channels, the recipients and the
  payload. The \<open>metadata\<close> of the payload is \<open>anomalyType\<close>, \<open>userId\<close>, the fields
  of the finding's details and a timestamp. The subject and the message are text rendered
  from these same fields and are not modelled.
\<close>

record notification =
  channels :: "string list"
  recipients :: "string list"
  n_severity :: severity
  anomalyType :: string
  n_userId :: "string option"
  n_details :: anomaly_details
  n_timestamp :: millis

text \<open>The tables this service only reads.\<close>

record database =
  test_users :: "test_user list"
  test_orders :: "test_order list"
  audit_logs :: "audit_log list"

datatype error = QueryError | NotificationError

text \<open>The lines written through \<open>this.logger\<close>, one constructor per call site.\<close>

datatype log_line =
  SweepStarted
| SweepCompleted
| HighValueStarted
| HighValueDetected string
| HighValueFailed error
| AuthFailuresStarted
| AuthFailureDetected string "string option" nat
| AuthFailuresFailed error
| UnusualAccessStarted
| UnusualAccessDetected string
| UnusualAccessFailed error
| AdministratorsFailed error
| LogAnomalyFailed error

datatype event =
  Logged log_line
| NotifierInvoked notification
| RowInserted anomaly_log

text \<open>
  What a sweep changes: the \<open>anomaly_logs\<close> table, and the sequence of effects it has had
  on the outside (logger lines, calls of the notification service, inserted rows) in the
  order they happened. \<open>faults\<close> scripts the environment: it holds, for the awaited
  calls still to come (Prisma queries, the insert, \<open>sendNotification\<close>), whether each
  one rejects; when the script is used up every further call succeeds.
\<close>

record state =
  anomaly_logs :: "anomaly_log list"
  trace :: "event list"
  faults :: "bool list"

section \<open>Asynchronous code with exceptions\<close>

text \<open>
  An \<open>async\<close> function is a state transformer that returns its value (\<open>Inr\<close>) or the
  error it rejects with (\<open>Inl\<close>).
\<close>

type_synonym 'a prog = "state \<Rightarrow> (error + 'a) \<times> state"

definition ret :: "'a \<Rightarrow> 'a prog" where
  "ret x = (\<lambda>s. (Inr x, s))"

definition throw :: "error \<Rightarrow> 'a prog" where
  "throw e = (\<lambda>s. (Inl e, s))"

definition andThen :: "'a prog \<Rightarrow> ('a \<Rightarrow> 'b prog) \<Rightarrow> 'b prog" where
  "andThen m f = (\<lambda>s. case m s of (Inl e, s') \<Rightarrow> (Inl e, s') | (Inr x, s') \<Rightarrow> f x s')"

definition try_catch :: "'a prog \<Rightarrow> (error \<Rightarrow> 'a prog) \<Rightarrow> 'a prog" where
  "try_catch m h = (\<lambda>s. case m s of (Inl e, s') \<Rightarrow> h e s' | (Inr x, s') \<Rightarrow> (Inr x, s'))"

primrec forEach :: "('a \<Rightarrow> unit prog) \<Rightarrow> 'a list \<Rightarrow> unit prog" where
  "forEach body [] = ret ()"
| "forEach body (x # xs) = andThen (body x) (\<lambda>_. forEach body xs)"

definition emit :: "event \<Rightarrow> unit prog" where
  "emit e = (\<lambda>s. (Inr (), s\<lparr>trace := trace s @ [e]\<rparr>))"

definition logger :: "log_line \<Rightarrow> unit prog" where
  "logger l = emit (Logged l)"

text \<open>
  An awaited call on the outside: it takes the next entry of the fault script and either
  rejects with \<open>e\<close>, leaving the tables as they are, or performs \<open>act\<close>. Every
  cause of a rejection is a fault of the script: a lost connection, and also a value that
  the database refuses, such as a user id of \<open>audit_logs\<close> (VARCHAR) that is not a
  UUID where \<open>test_users.id\<close> and \<open>anomaly_logs.user_id\<close> want one. What is
  thrown is an \<open>Error\<close> object, so that \<open>error.stack\<close> in a handler does not throw.
\<close>

definition await :: "error \<Rightarrow> (state \<Rightarrow> 'a \<times> state) \<Rightarrow> 'a prog" where
  "await e act = (\<lambda>s. case faults s of
       [] \<Rightarrow> (case act s of (x, s') \<Rightarrow> (Inr x, s'))
     | b # bs \<Rightarrow>
         if b then (Inl e, s\<lparr>faults := bs\<rparr>)
         else (case act (s\<lparr>faults := bs\<rparr>) of (x, s') \<Rightarrow> (Inr x, s')))"

definition query :: "'a \<Rightarrow> 'a prog" where
  "query rows = await QueryError (\<lambda>s. (rows, s))"

section \<open>Shared helpers of the service\<close>

text \<open>\<open>getAdministrators\<close>: the \<open>findMany\<close> and the \<open>try\<close>/\<open>catch\<close> around it.\<close>

definition administrators_rows :: "database \<Rightarrow> string \<Rightarrow> test_user list" where
  "administrators_rows db r =
     filter (\<lambda>u. role u \<in> set [''admin'', r, ''super_admin''] \<and> is_active u) (test_users db)"

definition getAdministrators :: "database \<Rightarrow> string \<Rightarrow> string list prog" where
  "getAdministrators db r =
     try_catch
       (andThen (query (administrators_rows db r)) (\<lambda>admins. ret (map u_id admins)))
       (\<lambda>err. andThen (logger (AdministratorsFailed err)) (\<lambda>_. ret []))"

text \<open>
  \<open>logAnomaly\<close>: the row passed to \<open>anomalyLogRecord.create\<close>. The columns the call
  does not name (\<open>resolved_at\<close>, \<open>resolved_by\<close>, \<open>notes\<close>, here \<open>a_notes\<close>) are nullable without a
  default, so they are NULL in the new row.
\<close>

definition anomaly_row ::
  "millis \<Rightarrow> string \<Rightarrow> severity \<Rightarrow> string option \<Rightarrow> anomaly_details \<Rightarrow> anomaly_log" where
  "anomaly_row now ty sev uid det =
     \<lparr>anomaly_type = ty, a_severity = sev, a_user_id = uid, details = det,
      detected_at = now, is_resolved = False, resolved_at = None, resolved_by = None,
      a_notes = None\<rparr>"

definition create_anomaly :: "anomaly_log \<Rightarrow> unit prog" where
  "create_anomaly row =
     await QueryError
       (\<lambda>s. ((), s\<lparr>anomaly_logs := anomaly_logs s @ [row],
                    trace := trace s @ [RowInserted row]\<rparr>))"

definition logAnomaly ::
  "millis \<Rightarrow> string \<Rightarrow> severity \<Rightarrow> string option \<Rightarrow> anomaly_details \<Rightarrow> unit prog" where
  "logAnomaly now ty sev uid det =
     try_catch (create_anomaly (anomaly_row now ty sev uid det))
       (\<lambda>err. logger (LogAnomalyFailed err))"

text \<open>
  \<open>NotificationService.sendNotification\<close> is not part of the sources at hand. The call
  is recorded when it is made; whether it then resolves or rejects is taken from the
  fault script.
\<close>

definition sendNotification :: "notification \<Rightarrow> unit prog" where
  "sendNotification n =
     andThen (emit (NotifierInvoked n)) (\<lambda>_. await NotificationError (\<lambda>s. ((), s)))"

definition all_channels :: "string list" where
  "all_channels = [''email'', ''slack'', ''in-app'']"

section \<open>Double precision\<close>

text \<open>
  \<open>to_double\<close> rounds a real number to the nearest double (binary64: 53 significant
  bits, least exponent \<open>-1022\<close>, subnormal numbers below it), ties going to the even
  significand, as IEEE 754 arithmetic does with the exact result of every operation.
  \<open>binade a\<close> is the exponent \<open>e\<close> of the binade of a positive \<open>a\<close>, that is
  \<open>2 ^ e \<le> a < 2 ^ (e + 1)\<close>, found by bisection of the exponent range and kept at
  \<open>-1022\<close> for the subnormal numbers. Infinities, NaN and the sign of zero are not
  modelled: the amounts are finite, and the sums and products formed from them are taken
  to stay in the finite range.
\<close>

definition pow2 :: "int \<Rightarrow> real" where
  "pow2 e = (if 0 \<le> e then 2 ^ nat e else 1 / 2 ^ nat (- e))"

fun exponent_search :: "nat \<Rightarrow> int \<Rightarrow> int \<Rightarrow> real \<Rightarrow> int" where
  "exponent_search 0 lo hi a = lo"
| "exponent_search (Suc n) lo hi a =
     (if lo = hi then lo
      else if pow2 ((lo + hi + 1) div 2) \<le> a
        then exponent_search n ((lo + hi + 1) div 2) hi a
        else exponent_search n lo ((lo + hi + 1) div 2 - 1) a)"

definition binade :: "real \<Rightarrow> int" where
  "binade a = exponent_search 11 (- 1022) 1023 a"

definition round_half_even :: "real \<Rightarrow> int" where
  "round_half_even q =
     (if q - of_int \<lfloor>q\<rfloor> < 1 / 2 then \<lfloor>q\<rfloor>
      else if 1 / 2 < q - of_int \<lfloor>q\<rfloor> then \<lfloor>q\<rfloor> + 1
      else if even \<lfloor>q\<rfloor> then \<lfloor>q\<rfloor> else \<lfloor>q\<rfloor> + 1)"

definition to_double :: "real \<Rightarrow> real" where
  "to_double x =
     (if x = 0 then 0
      else if x < 0
        then - (of_int (round_half_even (- x / pow2 (binade (- x) - 52)))
                * pow2 (binade (- x) - 52))
        else of_int (round_half_even (x / pow2 (binade x - 52))) * pow2 (binade x - 52))"

text \<open>The JavaScript product of two numbers, and the float8 sum of Postgres.\<close>

definition js_times :: "real \<Rightarrow> real \<Rightarrow> real" where
  "js_times x y = to_double (x * y)"

definition float8_plus :: "real \<Rightarrow> real \<Rightarrow> real" where
  "float8_plus x y = to_double (x + y)"

definition float8_div :: "real \<Rightarrow> real \<Rightarrow> real" where
  "float8_div x y = to_double (x / y)"

section \<open>High-value purchases\<close>

definition hour :: millis where
  "hour = 60 * 60 * 1000"

definition day :: millis where
  "day = 24 * 60 * 60 * 1000"

definition recentPurchases_rows :: "millis \<Rightarrow> database \<Rightarrow> test_order list" where
  "recentPurchases_rows now db =
     filter (\<lambda>ord. now - hour \<le> created_at ord \<and> status ord = ''pending'') (test_orders db)"

text \<open>The raw SQL aggregate: one row, with NULL in both columns when nothing matches.\<close>

record stats_row =
  avg_amount :: "real option"
  max_amount :: "real option"

text \<open>
  \<open>AVG\<close> over float8: the aggregate keeps the count and the sum of the rows in float8,
  adding one row after the other in the order of the scan (here the order of the table),
  and returns their float8 quotient.
\<close>

definition sql_avg :: "real list \<Rightarrow> real option" where
  "sql_avg xs =
     (if xs = [] then None
      else Some (float8_div (foldl float8_plus 0 xs) (real (length xs))))"

definition sql_max :: "real list \<Rightarrow> real option" where
  "sql_max xs = (case xs of [] \<Rightarrow> None | x # ys \<Rightarrow> Some (fold max ys x))"

definition userStats_rows :: "millis \<Rightarrow> database \<Rightarrow> string \<Rightarrow> stats_row list" where
  "userStats_rows now db uid =
     (let amounts = map total_amount
            (filter (\<lambda>ord. o_user_id ord = uid \<and> now - 90 * day \<le> created_at ord
                         \<and> created_at ord < now - hour \<and> status ord = ''approved'')
               (test_orders db))
      in [\<lparr>avg_amount = sql_avg amounts, max_amount = sql_max amounts\<rparr>])"

text \<open>\<open>userStats[0]?.avg_amount || 0\<close>: a missing row, NULL and 0 all give 0.\<close>

definition or_zero :: "real option \<Rightarrow> real" where
  "or_zero v = (case v of None \<Rightarrow> 0 | Some x \<Rightarrow> if x = 0 then 0 else x)"

definition first_row :: "stats_row list \<Rightarrow> (stats_row \<Rightarrow> real option) \<Rightarrow> real option" where
  "first_row rows col = (case rows of [] \<Rightarrow> None | r # _ \<Rightarrow> col r)"

definition highValueBody :: "millis \<Rightarrow> database \<Rightarrow> test_order \<Rightarrow> unit prog" where
  "highValueBody now db purchase =
     andThen (query (userStats_rows now db (o_user_id purchase))) (\<lambda>userStats.
       let avgAmount = or_zero (first_row userStats avg_amount);
           maxAmount = or_zero (first_row userStats max_amount)
       in if total_amount purchase > js_times avgAmount 3
             \<and> total_amount purchase > js_times maxAmount 1.5
          then
            andThen (logger (HighValueDetected (o_id purchase))) (\<lambda>_.
            andThen (getAdministrators db ''purchase_admin'') (\<lambda>admins.
            andThen (sendNotification
                \<lparr>channels = all_channels, recipients = admins, n_severity = High,
                 anomalyType = ''high_purchase'', n_userId = Some (o_user_id purchase),
                 n_details = HighPurchaseDetails (o_id purchase) (total_amount purchase) avgAmount,
                 n_timestamp = now\<rparr>) (\<lambda>_.
            logAnomaly now ''high_purchase'' High (Some (o_user_id purchase))
              (HighPurchaseDetails (o_id purchase) (total_amount purchase) avgAmount))))
          else ret ())"

definition detectHighValuePurchases :: "millis \<Rightarrow> database \<Rightarrow> unit prog" where
  "detectHighValuePurchases now db =
     andThen (logger HighValueStarted) (\<lambda>_.
       try_catch
         (andThen (query (recentPurchases_rows now db)) (\<lambda>recentPurchases.
            forEach (highValueBody now db) recentPurchases))
         (\<lambda>err. logger (HighValueFailed err)))"

section \<open>Authentication failures\<close>

text \<open>
  The \<open>groupBy\<close> on \<open>(ip_address, user_id)\<close>: the rows that pass \<open>where\<close> are
  tallied into one group per key (a NULL \<open>user_id\<close> is a key like any other), and
  \<open>having\<close> keeps the groups whose count is greater than 5. \<open>contains\<close> is the
  substring test.
\<close>

record login_group =
  g_ip_address :: string
  g_user_id :: "string option"
  g_count :: nat

definition failedLogin_where :: "millis \<Rightarrow> audit_log \<Rightarrow> bool" where
  "failedLogin_where now l =
     (sublist ''login'' (action l) \<and> 400 \<le> response_status l
      \<and> now - 30 * 60 * 1000 \<le> timestamp l)"

fun tally :: "login_group list \<Rightarrow> audit_log \<Rightarrow> login_group list" where
  "tally [] l = [\<lparr>g_ip_address = ip_address l, g_user_id = user_id l, g_count = 1\<rparr>]"
| "tally (g # gs) l =
     (if g_ip_address g = ip_address l \<and> g_user_id g = user_id l
      then g\<lparr>g_count := g_count g + 1\<rparr> # gs
      else g # tally gs l)"

definition failedLogins_rows :: "millis \<Rightarrow> database \<Rightarrow> login_group list" where
  "failedLogins_rows now db =
     filter (\<lambda>g. 5 < g_count g)
       (foldl tally [] (filter (failedLogin_where now) (audit_logs db)))"

definition authFailureBody :: "millis \<Rightarrow> database \<Rightarrow> login_group \<Rightarrow> unit prog" where
  "authFailureBody now db item =
     andThen (logger (AuthFailureDetected (g_ip_address item) (g_user_id item) (g_count item))) (\<lambda>_.
     andThen (getAdministrators db ''security_admin'') (\<lambda>admins.
     andThen (sendNotification
         \<lparr>channels = all_channels, recipients = admins, n_severity = High,
          anomalyType = ''auth_failure'', n_userId = g_user_id item,
          n_details = AuthFailureDetails (g_ip_address item) (g_count item),
          n_timestamp = now\<rparr>) (\<lambda>_.
     logAnomaly now ''auth_failure'' High (g_user_id item)
       (AuthFailureDetails (g_ip_address item) (g_count item)))))"

definition detectAuthenticationFailures :: "millis \<Rightarrow> database \<Rightarrow> unit prog" where
  "detectAuthenticationFailures now db =
     andThen (logger AuthFailuresStarted) (\<lambda>_.
       try_catch
         (andThen (query (failedLogins_rows now db)) (\<lambda>failedLogins.
            forEach (authFailureBody now db) failedLogins))
         (\<lambda>err. logger (AuthFailuresFailed err)))"

section \<open>Unusual access\<close>

text \<open>
  \<open>orderBy: { timestamp: 'desc' }\<close> is a stable sort on the negated timestamp. A
  JavaScript \<open>Set\<close> and \<open>Map\<close> keep insertion order: a set is a list without
  repetition that grows at its end, the map is an association list.
\<close>

definition recentLogs_rows :: "millis \<Rightarrow> database \<Rightarrow> audit_log list" where
  "recentLogs_rows now db =
     sort_key (\<lambda>l. - timestamp l)
       (filter (\<lambda>l. now - 2 * hour \<le> timestamp l \<and> user_id l \<noteq> None) (audit_logs db))"

definition set_add :: "'a \<Rightarrow> 'a list \<Rightarrow> 'a list" where
  "set_add x xs = (if x \<in> set xs then xs else xs @ [x])"

record user_access =
  resources :: "string list"
  ipAddresses :: "string list"
  timestamps :: "millis list"

definition record_access :: "audit_log \<Rightarrow> user_access \<Rightarrow> user_access" where
  "record_access l a =
     a\<lparr>resources := set_add (resource l) (resources a),
       ipAddresses := set_add (ip_address l) (ipAddresses a),
       timestamps := timestamps a @ [timestamp l]\<rparr>"

text \<open>
  One turn of the loop that fills \<open>userAccessMap\<close>. \<open>if (!log.user_id) continue\<close>
  skips a row without a user id and a row whose user id is the empty string.
\<close>

definition collect_access ::
  "(string \<times> user_access) list \<Rightarrow> audit_log \<Rightarrow> (string \<times> user_access) list" where
  "collect_access m l =
     (case user_id l of
        None \<Rightarrow> m
      | Some uid \<Rightarrow>
          if uid = [] then m
          else
            (let m' = (if uid \<in> fst ` set m then m
                       else m @ [(uid, \<lparr>resources = [], ipAddresses = [], timestamps = []\<rparr>)])
             in map (\<lambda>(k, a). if k = uid then (k, record_access l a) else (k, a)) m'))"

definition pastUserActivity_rows :: "millis \<Rightarrow> database \<Rightarrow> string \<Rightarrow> audit_log list" where
  "pastUserActivity_rows now db userId =
     sort_key (\<lambda>l. - timestamp l)
       (filter (\<lambda>l. user_id l = Some userId \<and> now - 30 * day \<le> timestamp l
                     \<and> timestamp l < now - 2 * hour)
          (audit_logs db))"

definition add_common :: "string list \<Rightarrow> audit_log \<Rightarrow> string list" where
  "add_common acc l = (if resource l \<noteq> [] then set_add (resource l) acc else acc)"

text \<open>
  \<open>ipFrequency\<close> is an object literal used as a dictionary. Its own properties are the
  counts (0 stands for a key that was never written). A key that names a property of
  \<open>Object.prototype\<close> reads as the inherited function or object, which is truthy, whether
  it was counted or not; \<open>ip_seen\<close> is the truthiness of \<open>ipFrequency[ip]\<close>.
\<close>

definition object_prototype_keys :: "string list" where
  "object_prototype_keys =
     [''constructor'', ''__proto__'', ''toString'', ''toLocaleString'', ''valueOf'',
      ''hasOwnProperty'', ''isPrototypeOf'', ''propertyIsEnumerable'',
      ''__defineGetter__'', ''__defineSetter__'', ''__lookupGetter__'', ''__lookupSetter__'']"

definition count_ip :: "(string \<Rightarrow> nat) \<Rightarrow> audit_log \<Rightarrow> (string \<Rightarrow> nat)" where
  "count_ip freq l =
     (if ip_address l \<noteq> [] then freq(ip_address l := freq (ip_address l) + 1) else freq)"

definition ip_seen :: "(string \<Rightarrow> nat) \<Rightarrow> string \<Rightarrow> bool" where
  "ip_seen freq ip = (freq ip \<noteq> 0 \<or> ip \<in> set object_prototype_keys)"

definition findUnique_user :: "database \<Rightarrow> string \<Rightarrow> test_user option" where
  "findUnique_user db userId = find (\<lambda>u. u_id u = userId) (test_users db)"

definition display_name :: "test_user option \<Rightarrow> string \<Rightarrow> string" where
  "display_name user userId =
     (case user of None \<Rightarrow> userId | Some u \<Rightarrow> if username u = [] then userId else username u)"

definition unusualResources_of :: "audit_log list \<Rightarrow> user_access \<Rightarrow> string list" where
  "unusualResources_of past recentAccess =
     filter (\<lambda>r. r \<notin> set (foldl add_common [] past)) (resources recentAccess)"

definition unusualIps_of :: "audit_log list \<Rightarrow> user_access \<Rightarrow> string list" where
  "unusualIps_of past recentAccess =
     filter (\<lambda>ip. \<not> ip_seen (foldl count_ip (\<lambda>_. 0) past) ip) (ipAddresses recentAccess)"

definition unusualAccessBody ::
  "millis \<Rightarrow> database \<Rightarrow> string \<times> user_access \<Rightarrow> unit prog" where
  "unusualAccessBody now db entry =
     (case entry of (userId, recentAccess) \<Rightarrow>
       andThen (query (pastUserActivity_rows now db userId)) (\<lambda>pastUserActivity.
         let unusualResources = unusualResources_of pastUserActivity recentAccess;
             unusualIps = unusualIps_of pastUserActivity recentAccess
         in if 0 < length unusualResources \<or> 0 < length unusualIps
            then
              andThen (query (findUnique_user db userId)) (\<lambda>user.
              andThen (logger (UnusualAccessDetected (display_name user userId))) (\<lambda>_.
              andThen (getAdministrators db ''security_admin'') (\<lambda>admins.
              andThen (sendNotification
                  \<lparr>channels = all_channels, recipients = admins, n_severity = Medium,
                   anomalyType = ''unusual_access'', n_userId = Some userId,
                   n_details = UnusualAccessDetails (map_option username user)
                     unusualResources unusualIps,
                   n_timestamp = now\<rparr>) (\<lambda>_.
              logAnomaly now ''unusual_access'' Medium (Some userId)
                (UnusualAccessDetails (map_option username user)
                   unusualResources unusualIps)))))
            else ret ()))"

definition detectUnusualAccess :: "millis \<Rightarrow> database \<Rightarrow> unit prog" where
  "detectUnusualAccess now db =
     andThen (logger UnusualAccessStarted) (\<lambda>_.
       try_catch
         (andThen (query (recentLogs_rows now db)) (\<lambda>recentLogs.
            forEach (unusualAccessBody now db) (foldl collect_access [] recentLogs)))
         (\<lambda>err. logger (UnusualAccessFailed err)))"

section \<open>The sweep\<close>

text \<open>
  \<open>Promise.all\<close> starts the three detectors and waits for all of them; it rejects with
  the first rejection, and a rejection does not stop the other detectors. The detectors
  write only to \<open>anomaly_logs\<close>, the logger and the notification service, and read
  none of these, so the way their steps interleave changes nothing but the relative order
  of what different detectors append. The model runs them in the order of the array. Each
  detector has a fault script of its own. All calls of \<open>Date.now()\<close> during a sweep
  are taken to return the same instant \<open>now\<close>.
\<close>

definition with_faults :: "bool list \<Rightarrow> 'a prog \<Rightarrow> 'a prog" where
  "with_faults fs m = (\<lambda>s. m (s\<lparr>faults := fs\<rparr>))"

definition promise_all3 :: "unit prog \<Rightarrow> unit prog \<Rightarrow> unit prog \<Rightarrow> unit prog" where
  "promise_all3 a b c =
     (\<lambda>s. case a s of (ra, s1) \<Rightarrow> (case b s1 of (rb, s2) \<Rightarrow> (case c s2 of (rc, s3) \<Rightarrow>
        (case ra of Inl e \<Rightarrow> (Inl e, s3)
         | Inr _ \<Rightarrow> (case rb of Inl e \<Rightarrow> (Inl e, s3) | Inr _ \<Rightarrow> (rc, s3))))))"

definition detectAnomalies ::
  "bool list \<times> bool list \<times> bool list \<Rightarrow> millis \<Rightarrow> database \<Rightarrow> unit prog" where
  "detectAnomalies fs now db =
     (case fs of (f1, f2, f3) \<Rightarrow>
       andThen (logger SweepStarted) (\<lambda>_.
       andThen (promise_all3
                  (with_faults f1 (detectHighValuePurchases now db))
                  (with_faults f2 (detectAuthenticationFailures now db))
                  (with_faults f3 (detectUnusualAccess now db))) (\<lambda>_.
       logger SweepCompleted)))"

section \<open>Observations on a run\<close>

text \<open>
  \<open>recorded m s\<close> are the rows that running \<open>m\<close> from \<open>s\<close> adds to
  \<open>anomaly_logs\<close>, and \<open>effects m s\<close> the effects it adds to the trace. The
  detectors only append, which is proved below, so dropping the old part is exact.
\<close>

definition recorded :: "'a prog \<Rightarrow> state \<Rightarrow> anomaly_log list" where
  "recorded m s = drop (length (anomaly_logs s)) (anomaly_logs (snd (m s)))"

definition effects :: "'a prog \<Rightarrow> state \<Rightarrow> event list" where
  "effects m s = drop (length (trace s)) (trace (snd (m s)))"

text \<open>
  \<open>clean m x rows\<close>: started without pending faults, \<open>m\<close> returns \<open>x\<close> and adds
  exactly \<open>rows\<close>. \<open>tri P m Q\<close>: started where \<open>P\<close> holds, \<open>m\<close> ends where
  \<open>Q\<close> holds, whether it returns or throws.
\<close>

definition clean :: "'a prog \<Rightarrow> 'a \<Rightarrow> anomaly_log list \<Rightarrow> bool" where
  "clean m x rows =
     (\<forall>s. faults s = [] \<longrightarrow>
        fst (m s) = Inr x \<and> faults (snd (m s)) = []
        \<and> anomaly_logs (snd (m s)) = anomaly_logs s @ rows)"

definition tri :: "(state \<Rightarrow> bool) \<Rightarrow> 'a prog \<Rightarrow> (state \<Rightarrow> bool) \<Rightarrow> bool" where
  "tri P m Q = (\<forall>s. P s \<longrightarrow> Q (snd (m s)))"

section \<open>What the high-value rule says\<close>

text \<open>
  The baseline of a purchaser in words of the specification: the amounts of the approved
  orders in \<open>[now - 90 days, now - 1 hour)\<close>, their maximum, and their average. The
  average comes in two readings. \<open>baseline_average\<close> is the average in double
  precision: the amounts are added one after the other, each sum rounded, and the total
  is divided by the count and rounded. \<open>exact_average\<close> is the average of the real
  numbers. Likewise \<open>exceeds_baseline\<close> compares the amount with the rounded products
  and \<open>exceeds_exactly\<close> with the exact ones.
\<close>

definition baseline_amounts :: "millis \<Rightarrow> database \<Rightarrow> string \<Rightarrow> real list" where
  "baseline_amounts now db uid =
     map total_amount
       (filter (\<lambda>h. o_user_id h = uid \<and> status h = ''approved''
                    \<and> now - 90 * day \<le> created_at h \<and> created_at h < now - hour)
          (test_orders db))"

fun rounded_sum :: "real \<Rightarrow> real list \<Rightarrow> real" where
  "rounded_sum acc [] = acc"
| "rounded_sum acc (x # xs) = rounded_sum (to_double (acc + x)) xs"

definition baseline_average :: "millis \<Rightarrow> database \<Rightarrow> string \<Rightarrow> real" where
  "baseline_average now db uid =
     (let xs = baseline_amounts now db uid
      in if xs = [] then 0 else to_double (rounded_sum 0 xs / real (length xs)))"

definition exact_average :: "millis \<Rightarrow> database \<Rightarrow> string \<Rightarrow> real" where
  "exact_average now db uid =
     (let xs = baseline_amounts now db uid
      in if xs = [] then 0 else sum_list xs / real (length xs))"

definition baseline_maximum :: "millis \<Rightarrow> database \<Rightarrow> string \<Rightarrow> real" where
  "baseline_maximum now db uid =
     (let xs = baseline_amounts now db uid in if xs = [] then 0 else Max (set xs))"

definition exceeds_baseline :: "millis \<Rightarrow> database \<Rightarrow> test_order \<Rightarrow> bool" where
  "exceeds_baseline now db ord =
     (total_amount ord > to_double (3 * baseline_average now db (o_user_id ord))
      \<and> total_amount ord > to_double (1.5 * baseline_maximum now db (o_user_id ord)))"

definition exceeds_exactly :: "millis \<Rightarrow> database \<Rightarrow> test_order \<Rightarrow> bool" where
  "exceeds_exactly now db ord =
     (total_amount ord > 3 * exact_average now db (o_user_id ord)
      \<and> total_amount ord > 1.5 * baseline_maximum now db (o_user_id ord))"

definition high_purchase_finding :: "millis \<Rightarrow> database \<Rightarrow> test_order \<Rightarrow> anomaly_log" where
  "high_purchase_finding now db ord =
     anomaly_row now ''high_purchase'' High (Some (o_user_id ord))
       (HighPurchaseDetails (o_id ord) (total_amount ord)
          (baseline_average now db (o_user_id ord)))"

text \<open>The rows one turn of the loop adds, and the rows of the whole loop.\<close>

definition highValue_rows :: "millis \<Rightarrow> database \<Rightarrow> test_order \<Rightarrow> anomaly_log list" where
  "highValue_rows now db purchase =
     (let userStats = userStats_rows now db (o_user_id purchase);
          avgAmount = or_zero (first_row userStats avg_amount);
          maxAmount = or_zero (first_row userStats max_amount)
      in if total_amount purchase > js_times avgAmount 3
            \<and> total_amount purchase > js_times maxAmount 1.5
         then [anomaly_row now ''high_purchase'' High (Some (o_user_id purchase))
                 (HighPurchaseDetails (o_id purchase) (total_amount purchase) avgAmount)]
         else [])"

definition highValueFindings :: "millis \<Rightarrow> database \<Rightarrow> anomaly_log list" where
  "highValueFindings now db =
     concat (map (highValue_rows now db) (recentPurchases_rows now db))"

section \<open>What the authentication-failure rule says\<close>


definition auth_failure_finding ::
  "millis \<Rightarrow> string \<Rightarrow> string option \<Rightarrow> nat \<Rightarrow> anomaly_log" where
  "auth_failure_finding now ip uid n =
     anomaly_row now ''auth_failure'' High uid (AuthFailureDetails ip n)"




definition authFailureFindings :: "millis \<Rightarrow> database \<Rightarrow> anomaly_log list" where
  "authFailureFindings now db =
     map (\<lambda>item. auth_failure_finding now (g_ip_address item) (g_user_id item) (g_count item))
       (failedLogins_rows now db)"

section \<open>What the unusual-access rule says\<close>

text \<open>
  The recent events of a user are those of the trailing two hours, the historical ones
  those in \<open>[now - 30 days, now - 2 hours)\<close>. \<open>unusual_by_history\<close> is the rule as
  the specification words it: a recent resource that is not a historical resource, or a
  recent source IP that is not a historical source IP. \<open>unusual_by_named_history\<close>
  compares with the non-empty historical names only, as the guards of the history loop
  do.
\<close>

definition recent_events :: "millis \<Rightarrow> database \<Rightarrow> string \<Rightarrow> audit_log list" where
  "recent_events now db uid =
     filter (\<lambda>l. user_id l = Some uid \<and> now - 2 * hour \<le> timestamp l) (audit_logs db)"

definition historical_events :: "millis \<Rightarrow> database \<Rightarrow> string \<Rightarrow> audit_log list" where
  "historical_events now db uid =
     filter (\<lambda>l. user_id l = Some uid \<and> now - 30 * day \<le> timestamp l
                  \<and> timestamp l < now - 2 * hour) (audit_logs db)"

definition named :: "string list \<Rightarrow> string list" where
  "named xs = filter (\<lambda>x. x \<noteq> []) xs"

definition unusual_by_history :: "millis \<Rightarrow> database \<Rightarrow> string \<Rightarrow> bool" where
  "unusual_by_history now db uid =
     ((\<exists>r \<in> set (map resource (recent_events now db uid)).
         r \<notin> set (map resource (historical_events now db uid)))
      \<or> (\<exists>ip \<in> set (map ip_address (recent_events now db uid)).
         ip \<notin> set (map ip_address (historical_events now db uid))))"

definition unusual_by_named_history :: "millis \<Rightarrow> database \<Rightarrow> string \<Rightarrow> bool" where
  "unusual_by_named_history now db uid =
     ((\<exists>r \<in> set (map resource (recent_events now db uid)).
         r \<notin> set (named (map resource (historical_events now db uid))))
      \<or> (\<exists>ip \<in> set (map ip_address (recent_events now db uid)).
         ip \<notin> set (named (map ip_address (historical_events now db uid)))))"

definition access_of :: "(string \<times> user_access) list \<Rightarrow> string \<Rightarrow> user_access" where
  "access_of m uid =
     (case map_of m uid of
        None \<Rightarrow> \<lparr>resources = [], ipAddresses = [], timestamps = []\<rparr>
      | Some a \<Rightarrow> a)"

definition unusualAccess_rows ::
  "millis \<Rightarrow> database \<Rightarrow> string \<times> user_access \<Rightarrow> anomaly_log list" where
  "unusualAccess_rows now db entry =
     (let past = pastUserActivity_rows now db (fst entry);
          unusualResources = unusualResources_of past (snd entry);
          unusualIps = unusualIps_of past (snd entry)
      in if 0 < length unusualResources \<or> 0 < length unusualIps
         then [anomaly_row now ''unusual_access'' Medium (Some (fst entry))
                 (UnusualAccessDetails (map_option username (findUnique_user db (fst entry)))
                    unusualResources unusualIps)]
         else [])"

definition unusualAccessFindings :: "millis \<Rightarrow> database \<Rightarrow> anomaly_log list" where
  "unusualAccessFindings now db =
     concat (map (unusualAccess_rows now db)
       (foldl collect_access [] (recentLogs_rows now db)))"

definition unusual_access_flagged :: "millis \<Rightarrow> database \<Rightarrow> state \<Rightarrow> string \<Rightarrow> bool" where
  "unusual_access_flagged now db s uid =
     (Some uid \<in> set (map a_user_id
        (recorded (with_faults [] (detectUnusualAccess now db)) s)))"

section \<open>Invariants of a sweep\<close>

text \<open>
  \<open>reports n r\<close>: the notification \<open>n\<close> is about the finding of row \<open>r\<close>.
  \<open>sweep_invariant I\<close> collects what a state predicate must satisfy to hold
  throughout a sweep under any fault script. \<open>grown\<close>, \<open>keeps\<close> and \<open>ordered\<close>
  are the three invariants used: the table only grows, by unresolved rows; the trace only
  grows; and in the part of the trace added since \<open>base\<close> every inserted row follows
  the call of the notification service for the same finding (\<open>notify_first\<close>, where
  \<open>pending\<close> is the last notification not yet followed by its row).
\<close>

definition reports :: "notification \<Rightarrow> anomaly_log \<Rightarrow> bool" where
  "reports n r =
     (anomalyType n = anomaly_type r \<and> n_severity n = a_severity r
      \<and> n_userId n = a_user_id r \<and> n_details n = details r)"

definition sweep_invariant :: "(state \<Rightarrow> bool) \<Rightarrow> bool" where
  "sweep_invariant I =
     ((\<forall>s l. I s \<longrightarrow> I (s\<lparr>trace := trace s @ [Logged l]\<rparr>))
      \<and> (\<forall>s bs. I s \<longrightarrow> I (s\<lparr>faults := bs\<rparr>))
      \<and> (\<forall>n now ty sev uid det.
            reports n (anomaly_row now ty sev uid det) \<longrightarrow>
            tri I (andThen (sendNotification n) (\<lambda>_. logAnomaly now ty sev uid det)) I))"

definition unresolved :: "anomaly_log \<Rightarrow> bool" where
  "unresolved r =
     (is_resolved r = False \<and> resolved_at r = None \<and> resolved_by r = None
      \<and> a_notes r = None)"

definition grown :: "anomaly_log list \<Rightarrow> state \<Rightarrow> bool" where
  "grown base s =
     (take (length base) (anomaly_logs s) = base
      \<and> list_all unresolved (drop (length base) (anomaly_logs s)))"

definition keeps :: "event list \<Rightarrow> state \<Rightarrow> bool" where
  "keeps p s = prefix p (trace s)"




section \<open>Example data\<close>

text \<open>
  \<open>purchases_db\<close>: a purchaser with approved orders of 500 and 1500 (average 1000,
  maximum 1500) and pending orders of 4600 and 2200, and a purchaser without history.
  \<open>cold_db\<close>: one pending order of a purchaser without history.
  \<open>threshold_db\<close>: amounts at the rounding thresholds, stored as the doubles nearest
  to the decimal numbers 133.41, 400.23, 742.07, 4307.29 and 7574.04.
  \<open>logins_db\<close>: six failed logins from one address without user id and five from
  another address for one user. \<open>access_db\<close>: users with and without history.
  The ids of users and orders are UUIDs, as the columns of \<open>test_users\<close>,
  \<open>test_orders\<close> and \<open>anomaly_logs\<close> require.
\<close>

abbreviation user1 :: string where
  "user1 \<equiv> ''00000000-0000-4000-8000-000000000001''"

abbreviation user2 :: string where
  "user2 \<equiv> ''00000000-0000-4000-8000-000000000002''"

abbreviation user3 :: string where
  "user3 \<equiv> ''00000000-0000-4000-8000-000000000003''"

abbreviation user4 :: string where
  "user4 \<equiv> ''00000000-0000-4000-8000-000000000004''"

abbreviation order1 :: string where
  "order1 \<equiv> ''00000000-0000-4000-8000-000000000101''"

abbreviation order2 :: string where
  "order2 \<equiv> ''00000000-0000-4000-8000-000000000102''"

abbreviation order3 :: string where
  "order3 \<equiv> ''00000000-0000-4000-8000-000000000103''"

abbreviation order4 :: string where
  "order4 \<equiv> ''00000000-0000-4000-8000-000000000104''"

abbreviation order5 :: string where
  "order5 \<equiv> ''00000000-0000-4000-8000-000000000105''"

definition empty_state :: state where
  "empty_state = \<lparr>anomaly_logs = [], trace = [], faults = []\<rparr>"

definition example_now :: millis where
  "example_now = 1000 * day"

definition purchases_db :: database where
  "purchases_db =
     \<lparr>test_users =
        [\<lparr>u_id = user1, username = ''alice'', email = ''alice@example.com'',
          role = ''buyer'', is_active = True\<rparr>,
         \<lparr>u_id = user2, username = ''bob'', email = ''bob@example.com'',
          role = ''purchase_admin'', is_active = True\<rparr>],
      test_orders =
        [\<lparr>o_id = order1, o_user_id = user1, status = ''approved'', total_amount = 500,
          created_at = example_now - 11 * day\<rparr>,
         \<lparr>o_id = order2, o_user_id = user1, status = ''approved'', total_amount = 1500,
          created_at = example_now - 10 * day\<rparr>,
         \<lparr>o_id = order3, o_user_id = user1, status = ''pending'', total_amount = 4600,
          created_at = example_now - 1000\<rparr>,
         \<lparr>o_id = order4, o_user_id = user1, status = ''pending'', total_amount = 2200,
          created_at = example_now - 2000\<rparr>,
         \<lparr>o_id = order5, o_user_id = user2, status = ''pending'', total_amount = 10,
          created_at = example_now - 3000\<rparr>],
      audit_logs = []\<rparr>"

definition cold_order :: test_order where
  "cold_order =
     \<lparr>o_id = order1, o_user_id = user1, status = ''pending'', total_amount = 10,
      created_at = example_now - 1000\<rparr>"

definition cold_db :: database where
  "cold_db =
     \<lparr>test_users =
        [\<lparr>u_id = user1, username = ''alice'', email = ''alice@example.com'',
          role = ''buyer'', is_active = True\<rparr>,
         \<lparr>u_id = user2, username = ''bob'', email = ''bob@example.com'',
          role = ''purchase_admin'', is_active = True\<rparr>],
      test_orders = [cold_order],
      audit_logs = []\<rparr>"


definition cold_finding :: anomaly_log where
  "cold_finding =
     anomaly_row example_now ''high_purchase'' High (Some user1)
       (HighPurchaseDetails order1 10 0)"

definition threshold_order :: test_order where
  "threshold_order =
     \<lparr>o_id = order2, o_user_id = user1, status = ''pending'',
      total_amount = to_double (40023 / 100), created_at = example_now - 1000\<rparr>"

definition rounded_order :: test_order where
  "rounded_order =
     \<lparr>o_id = order5, o_user_id = user2, status = ''pending'',
      total_amount = to_double (757404 / 100), created_at = example_now - 1000\<rparr>"

definition threshold_db :: database where
  "threshold_db =
     \<lparr>test_users =
        [\<lparr>u_id = user1, username = ''alice'', email = ''alice@example.com'',
          role = ''buyer'', is_active = True\<rparr>,
         \<lparr>u_id = user2, username = ''bob'', email = ''bob@example.com'',
          role = ''buyer'', is_active = True\<rparr>],
      test_orders =
        [\<lparr>o_id = order1, o_user_id = user1, status = ''approved'',
          total_amount = to_double (13341 / 100), created_at = example_now - 10 * day\<rparr>,
         threshold_order,
         \<lparr>o_id = order3, o_user_id = user2, status = ''approved'',
          total_amount = to_double (74207 / 100), created_at = example_now - 10 * day\<rparr>,
         \<lparr>o_id = order4, o_user_id = user2, status = ''approved'',
          total_amount = to_double (430729 / 100), created_at = example_now - 9 * day\<rparr>,
         rounded_order],
      audit_logs = []\<rparr>"



definition visit :: "string option \<Rightarrow> string \<Rightarrow> string \<Rightarrow> millis \<Rightarrow> audit_log" where
  "visit uid r ip t =
     \<lparr>user_id = uid, action = ''GET'', resource = r, ip_address = ip,
      response_status = 200, timestamp = t\<rparr>"

definition access_db :: database where
  "access_db =
     \<lparr>test_users = [], test_orders = [],
      audit_logs =
        [visit (Some user1) [] ''10.0.0.1'' (example_now - 5 * hour),
         visit (Some user1) [] ''10.0.0.1'' (example_now - 1000),
         visit (Some []) ''orders'' ''10.0.0.9'' (example_now - 1000),
         visit (Some user2) ''orders'' ''10.0.0.2'' (example_now - 5 * hour),
         visit (Some user2) ''orders'' ''constructor'' (example_now - 1000),
         visit (Some user3) ''orders'' ''10.0.0.3'' (example_now - 5 * hour),
         visit (Some user3) ''admin'' ''10.0.0.3'' (example_now - 1000),
         visit (Some user4) ''orders'' ''10.0.0.4'' (example_now - 5 * hour),
         visit (Some user4) ''orders'' ''10.0.0.4'' (example_now - 1000)]\<rparr>"

section \<open>Evaluating double precision\<close>

lemma to_double_zero [simp]: "to_double 0 = 0"
  by (simp add: to_double_def)

lemma js_times_zero [simp]: "js_times 0 y = 0"
  by (simp add: js_times_def)

lemma exponent_search_numeral:
  "exponent_search (numeral k) lo hi a =
     (if lo = hi then lo
      else if pow2 ((lo + hi + 1) div 2) \<le> a
        then exponent_search (pred_numeral k) ((lo + hi + 1) div 2) hi a
        else exponent_search (pred_numeral k) lo ((lo + hi + 1) div 2 - 1) a)"
  by (simp add: numeral_eq_Suc)

lemmas double_eval = to_double_def binade_def round_half_even_def pow2_def
  exponent_search_numeral js_times_def float8_plus_def float8_div_def

section \<open>Runs without faults\<close>

lemma cleanI:
  assumes "\<And>s. faults s = [] \<Longrightarrow> \<exists>s'. m s = (Inr x, s') \<and> faults s' = []
             \<and> anomaly_logs s' = anomaly_logs s @ rows"
  shows "clean m x rows"
  unfolding clean_def
proof (intro allI impI)
  fix s :: state
  assume "faults s = []"
  from assms [OF this] obtain s' where "m s = (Inr x, s')" and "faults s' = []"
    and "anomaly_logs s' = anomaly_logs s @ rows"
    by blast
  then show "fst (m s) = Inr x \<and> faults (snd (m s)) = []
      \<and> anomaly_logs (snd (m s)) = anomaly_logs s @ rows"
    by simp
qed

lemma cleanD:
  assumes "clean m x rows" and "faults s = []"
  obtains s' where "m s = (Inr x, s')" and "faults s' = []"
    and "anomaly_logs s' = anomaly_logs s @ rows"
proof -
  from assms have "fst (m s) = Inr x" and "faults (snd (m s)) = []"
    and "anomaly_logs (snd (m s)) = anomaly_logs s @ rows"
    by (simp_all add: clean_def)
  moreover from this have "m s = (Inr x, snd (m s))"
    by (simp add: prod_eq_iff)
  ultimately show thesis
    using that [of "snd (m s)"] by simp
qed

lemma clean_ret: "clean (ret x) x []"
  by (simp add: clean_def ret_def)

lemma clean_andThen:
  assumes "clean m x r1" and "clean (f x) y r2"
  shows "clean (andThen m f) y (r1 @ r2)"
proof (rule cleanI)
  fix s :: state
  assume "faults s = []"
  with assms(1) obtain s1 where m: "m s = (Inr x, s1)" "faults s1 = []"
    "anomaly_logs s1 = anomaly_logs s @ r1"
    by (rule cleanD)
  from assms(2) m(2) obtain s2 where f: "f x s1 = (Inr y, s2)" "faults s2 = []"
    "anomaly_logs s2 = anomaly_logs s1 @ r2"
    by (rule cleanD)
  show "\<exists>s'. andThen m f s = (Inr y, s') \<and> faults s' = []
          \<and> anomaly_logs s' = anomaly_logs s @ r1 @ r2"
    using m f by (simp add: andThen_def)
qed

lemma clean_andThen_nil:
  assumes "clean m x []" and "clean (f x) y r"
  shows "clean (andThen m f) y r"
  using clean_andThen [of m x "[]" f y r] assms by simp

lemma clean_try_catch:
  assumes "clean m x r"
  shows "clean (try_catch m h) x r"
proof (rule cleanI)
  fix s :: state
  assume "faults s = []"
  with assms obtain s1 where "m s = (Inr x, s1)" "faults s1 = []"
    "anomaly_logs s1 = anomaly_logs s @ r"
    by (rule cleanD)
  then show "\<exists>s'. try_catch m h s = (Inr x, s') \<and> faults s' = []
          \<and> anomaly_logs s' = anomaly_logs s @ r"
    by (simp add: try_catch_def)
qed

lemma clean_logger: "clean (logger l) () []"
  by (simp add: clean_def logger_def emit_def)

lemma clean_query: "clean (query rows) rows []"
  by (simp add: clean_def query_def await_def)

lemma clean_getAdministrators:
  "clean (getAdministrators db r) (map u_id (administrators_rows db r)) []"
  unfolding getAdministrators_def
  using clean_try_catch [OF clean_andThen [OF clean_query clean_ret]] by simp

lemma clean_sendNotification: "clean (sendNotification n) () []"
  by (simp add: clean_def sendNotification_def andThen_def emit_def await_def)

lemma clean_logAnomaly:
  "clean (logAnomaly now ty sev uid det) () [anomaly_row now ty sev uid det]"
  unfolding logAnomaly_def
  by (rule clean_try_catch) (simp add: clean_def create_anomaly_def await_def)

lemma clean_forEach:
  assumes "\<And>x. x \<in> set xs \<Longrightarrow> clean (body x) () (rows x)"
  shows "clean (forEach body xs) () (concat (map rows xs))"
  using assms
proof (induction xs)
  case Nil
  show ?case by (simp add: clean_ret)
next
  case (Cons x xs)
  have "clean (andThen (body x) (\<lambda>_. forEach body xs)) () (rows x @ concat (map rows xs))"
    by (rule clean_andThen) (simp_all add: Cons)
  then show ?case by simp
qed

lemma clean_with_faults:
  assumes "clean m x rows"
  shows "fst (with_faults [] m s) = Inr x"
    and "anomaly_logs (snd (with_faults [] m s)) = anomaly_logs s @ rows"
proof -
  have "faults (s\<lparr>faults := []\<rparr>) = []" by simp
  with assms obtain s' where "m (s\<lparr>faults := []\<rparr>) = (Inr x, s')"
    and "anomaly_logs s' = anomaly_logs (s\<lparr>faults := []\<rparr>) @ rows"
    by (rule cleanD)
  then show "fst (with_faults [] m s) = Inr x"
    and "anomaly_logs (snd (with_faults [] m s)) = anomaly_logs s @ rows"
    by (simp_all add: with_faults_def)
qed

lemma recorded_clean:
  assumes "clean m x rows"
  shows "recorded (with_faults [] m) s = rows"
  unfolding recorded_def clean_with_faults(2) [OF assms] by simp

section \<open>High-value purchases: C1 and C6\<close>

lemma clean_highValueBody:
  "clean (highValueBody now db purchase) () (highValue_rows now db purchase)"
  unfolding highValueBody_def
proof (rule clean_andThen_nil [OF clean_query])
  let ?stats = "userStats_rows now db (o_user_id purchase)"
  let ?avg = "or_zero (first_row ?stats avg_amount)"
  let ?max = "or_zero (first_row ?stats max_amount)"
  show "clean
     (let avgAmount = ?avg; maxAmount = ?max
      in if total_amount purchase > js_times avgAmount 3
            \<and> total_amount purchase > js_times maxAmount 1.5
         then
           andThen (logger (HighValueDetected (o_id purchase))) (\<lambda>_.
           andThen (getAdministrators db ''purchase_admin'') (\<lambda>admins.
           andThen (sendNotification
               \<lparr>channels = all_channels, recipients = admins, n_severity = High,
                anomalyType = ''high_purchase'', n_userId = Some (o_user_id purchase),
                n_details = HighPurchaseDetails (o_id purchase) (total_amount purchase) avgAmount,
                n_timestamp = now\<rparr>) (\<lambda>_.
           logAnomaly now ''high_purchase'' High (Some (o_user_id purchase))
             (HighPurchaseDetails (o_id purchase) (total_amount purchase) avgAmount))))
         else ret ()) () (highValue_rows now db purchase)"
  proof (cases "total_amount purchase > js_times ?avg 3
      \<and> total_amount purchase > js_times ?max 1.5")
    case True
    then show ?thesis
      apply (simp add: highValue_rows_def Let_def)
      apply (rule clean_andThen_nil [OF clean_logger])
      apply (rule clean_andThen_nil [OF clean_getAdministrators])
      apply (rule clean_andThen_nil [OF clean_sendNotification])
      apply (rule clean_logAnomaly)
      done
  next
    case False
    then show ?thesis
      by (auto simp add: highValue_rows_def Let_def clean_ret)
  qed
qed

lemma clean_detectHighValuePurchases:
  "clean (detectHighValuePurchases now db) () (highValueFindings now db)"
  unfolding detectHighValuePurchases_def highValueFindings_def
  apply (rule clean_andThen_nil [OF clean_logger])
  apply (rule clean_try_catch)
  apply (rule clean_andThen_nil [OF clean_query])
  apply (rule clean_forEach)
  apply (rule clean_highValueBody)
  done

lemma userStats_amounts:
  "userStats_rows now db uid =
     [\<lparr>avg_amount = sql_avg (baseline_amounts now db uid),
       max_amount = sql_max (baseline_amounts now db uid)\<rparr>]"
proof -
  have "filter (\<lambda>ord. o_user_id ord = uid \<and> now - 90 * day \<le> created_at ord
               \<and> created_at ord < now - hour \<and> status ord = ''approved'') (test_orders db)
        = filter (\<lambda>h. o_user_id h = uid \<and> status h = ''approved''
               \<and> now - 90 * day \<le> created_at h \<and> created_at h < now - hour) (test_orders db)"
    by (rule filter_cong) auto
  then show ?thesis
    unfolding userStats_rows_def baseline_amounts_def Let_def by (rule arg_cong)
qed

lemma foldl_float8_plus: "foldl float8_plus acc xs = rounded_sum acc xs"
  by (induction xs arbitrary: acc) (simp_all add: float8_plus_def)

lemma stats_average:
  "or_zero (first_row (userStats_rows now db uid) avg_amount) = baseline_average now db uid"
  by (simp add: userStats_amounts first_row_def or_zero_def sql_avg_def baseline_average_def
      Let_def foldl_float8_plus float8_div_def)

lemma sql_max_Max: "xs \<noteq> [] \<Longrightarrow> sql_max xs = Some (Max (set xs))"
proof (cases xs)
  case Nil
  assume "xs \<noteq> []"
  with Nil show ?thesis by simp
next
  case (Cons y ys)
  have "fold max ys y = Max (set (y # ys))"
    by (rule Max.set_eq_fold [symmetric])
  with Cons show ?thesis by (simp add: sql_max_def)
qed

lemma stats_maximum:
  "or_zero (first_row (userStats_rows now db uid) max_amount) = baseline_maximum now db uid"
proof (cases "baseline_amounts now db uid = []")
  case True
  then show ?thesis
    by (simp add: userStats_amounts first_row_def or_zero_def sql_max_def
        baseline_maximum_def)
next
  case False
  then show ?thesis
    by (simp add: userStats_amounts first_row_def or_zero_def sql_max_Max
        baseline_maximum_def)
qed

lemma highValue_rows_rule:
  "highValue_rows now db ord =
     (if exceeds_baseline now db ord then [high_purchase_finding now db ord] else [])"
  by (simp add: highValue_rows_def stats_average stats_maximum exceeds_baseline_def
      high_purchase_finding_def Let_def js_times_def mult.commute)

lemma concat_map_if:
  "concat (map (\<lambda>x. if P x then [f x] else []) xs) = map f (filter P xs)"
  by (induction xs) simp_all

lemma highValueFindings_rule:
  "highValueFindings now db =
     map (high_purchase_finding now db)
       (filter (\<lambda>ord. status ord = ''pending'' \<and> now - hour \<le> created_at ord
                      \<and> exceeds_baseline now db ord)
          (test_orders db))"
proof -
  have "highValueFindings now db =
      map (high_purchase_finding now db)
        (filter (exceeds_baseline now db) (recentPurchases_rows now db))"
    unfolding highValueFindings_def
    using concat_map_if [of "exceeds_baseline now db" "high_purchase_finding now db"]
    by (simp add: highValue_rows_rule [abs_def])
  also have "filter (exceeds_baseline now db) (recentPurchases_rows now db)
      = filter (\<lambda>ord. status ord = ''pending'' \<and> now - hour \<le> created_at ord
                      \<and> exceeds_baseline now db ord) (test_orders db)"
    by (auto simp: recentPurchases_rows_def intro: filter_cong)
  finally show ?thesis .
qed

text \<open>
  C1, as amended. In a sweep in which no awaited call fails, the detector returns normally
  and the findings it records are exactly those of the orders with status \<open>pending\<close>
  created at or after \<open>now - 1 hour\<close> whose amount is greater than both
  3 times the average and 1.5 times the maximum of the purchaser's approved orders in
  \<open>[now - 90 days, now - 1 hour)\<close>, the products rounded to double precision and the
  average computed in double precision; average and maximum are 0 when there is no such
  order.
\<close>

theorem high_value_flags_iff:
  "fst (with_faults [] (detectHighValuePurchases now db) s) = Inr ()
   \<and> anomaly_logs (snd (with_faults [] (detectHighValuePurchases now db) s))
       = anomaly_logs s @
         map (high_purchase_finding now db)
           (filter (\<lambda>ord. status ord = ''pending'' \<and> now - hour \<le> created_at ord
                          \<and> exceeds_baseline now db ord)
              (test_orders db))"
  using clean_with_faults [OF clean_detectHighValuePurchases, of now db s]
  by (simp add: highValueFindings_rule)

text \<open>
  The instance of C1 at \<open>purchases_db\<close>: 4600 is flagged against average 1000 and
  maximum 1500, 2200 is not, and the order of the purchaser without history is.
\<close>

lemma purchases_amounts:
  "baseline_amounts example_now purchases_db user1 = [500, 1500]"
  "baseline_amounts example_now purchases_db user2 = []"
  by (simp_all add: baseline_amounts_def purchases_db_def example_now_def day_def hour_def)

lemma purchases_average:
  "baseline_average example_now purchases_db user1 = 1000"
  "baseline_average example_now purchases_db user2 = 0"
  by (simp_all add: baseline_average_def purchases_amounts) (simp add: double_eval)

lemma purchases_maximum:
  "baseline_maximum example_now purchases_db user1 = 1500"
  "baseline_maximum example_now purchases_db user2 = 0"
  by (simp_all add: baseline_maximum_def purchases_amounts)

lemma purchases_products: "to_double 3000 = 3000" "to_double 2250 = 2250"
  by (simp_all add: double_eval)

lemma purchases_orders:
  "test_orders purchases_db =
     [\<lparr>o_id = order1, o_user_id = user1, status = ''approved'', total_amount = 500,
       created_at = example_now - 11 * day\<rparr>,
      \<lparr>o_id = order2, o_user_id = user1, status = ''approved'', total_amount = 1500,
       created_at = example_now - 10 * day\<rparr>,
      \<lparr>o_id = order3, o_user_id = user1, status = ''pending'', total_amount = 4600,
       created_at = example_now - 1000\<rparr>,
      \<lparr>o_id = order4, o_user_id = user1, status = ''pending'', total_amount = 2200,
       created_at = example_now - 2000\<rparr>,
      \<lparr>o_id = order5, o_user_id = user2, status = ''pending'', total_amount = 10,
       created_at = example_now - 3000\<rparr>]"
  by (simp add: purchases_db_def)

theorem high_value_flags_iff_witness:
  "anomaly_logs (snd (with_faults [] (detectHighValuePurchases example_now purchases_db)
      empty_state))
   = [anomaly_row example_now ''high_purchase'' High (Some user1)
        (HighPurchaseDetails order3 4600 1000),
      anomaly_row example_now ''high_purchase'' High (Some user2)
        (HighPurchaseDetails order5 10 0)]"
proof -
  have "filter (\<lambda>ord. status ord = ''pending'' \<and> example_now - hour \<le> created_at ord
          \<and> exceeds_baseline example_now purchases_db ord) (test_orders purchases_db)
      = [\<lparr>o_id = order3, o_user_id = user1, status = ''pending'', total_amount = 4600,
           created_at = example_now - 1000\<rparr>,
         \<lparr>o_id = order5, o_user_id = user2, status = ''pending'', total_amount = 10,
           created_at = example_now - 3000\<rparr>]"
    by (simp add: purchases_orders exceeds_baseline_def purchases_average purchases_maximum
        purchases_products hour_def)
  then show ?thesis
    using high_value_flags_iff [of example_now purchases_db empty_state]
    by (simp add: high_purchase_finding_def purchases_average empty_state_def)
qed

text \<open>
  C1 as the specification states it, with exact products and the exact average, fails in
  both directions. With one approved order of 133.41, a pending order of 400.23 exceeds
  three times the average, yet the double product \<open>133.41 * 3\<close> is 400.23 itself and
  nothing is recorded. With approved orders of 742.07 and 4307.29, a pending order of
  7574.04 does not exceed three times the exact average, yet the double product is
  7574.039999999999 and the order is recorded.
\<close>

lemma decimal_doubles:
  "to_double (13341 / 100) = 4693947080371077 / 35184372088832"
  "to_double (40023 / 100) = 880115077569577 / 2199023255552"
  "to_double (74207 / 100) = 6527316748989891 / 8796093022208"
  "to_double (430729 / 100) = 4735915439203287 / 1099511627776"
  "to_double (757404 / 100) = 8327745049240535 / 1099511627776"
  by (simp_all add: double_eval)

lemma threshold_amounts:
  "baseline_amounts example_now threshold_db user1 = [to_double (13341 / 100)]"
  "baseline_amounts example_now threshold_db user2
     = [to_double (74207 / 100), to_double (430729 / 100)]"
  by (simp_all add: baseline_amounts_def threshold_db_def threshold_order_def
      rounded_order_def day_def hour_def)

lemma threshold_average:
  "baseline_average example_now threshold_db user1 = 4693947080371077 / 35184372088832"
  "baseline_average example_now threshold_db user2 = 5551830032827023 / 2199023255552"
  by (simp_all add: baseline_average_def threshold_amounts decimal_doubles)
    (simp_all add: double_eval)

lemma threshold_maximum:
  "baseline_maximum example_now threshold_db user1 = 4693947080371077 / 35184372088832"
  "baseline_maximum example_now threshold_db user2 = 4735915439203287 / 1099511627776"
  by (simp_all add: baseline_maximum_def threshold_amounts decimal_doubles)

lemma threshold_exact_average:
  "exact_average example_now threshold_db user1 = 4693947080371077 / 35184372088832"
  "exact_average example_now threshold_db user2
     = (6527316748989891 / 8796093022208 + 4735915439203287 / 1099511627776) / 2"
  by (simp_all add: exact_average_def threshold_amounts decimal_doubles)

lemma threshold_decisions:
  "\<not> exceeds_baseline example_now threshold_db threshold_order"
  "exceeds_baseline example_now threshold_db rounded_order"
  "exceeds_exactly example_now threshold_db threshold_order"
  "\<not> exceeds_exactly example_now threshold_db rounded_order"
  by (simp_all add: exceeds_baseline_def exceeds_exactly_def threshold_order_def
      rounded_order_def threshold_average threshold_maximum threshold_exact_average)
    (simp_all add: double_eval)

lemma threshold_fields:
  "status threshold_order = ''pending''" "created_at threshold_order = example_now - 1000"
  "status rounded_order = ''pending''" "created_at rounded_order = example_now - 1000"
  by (simp_all add: threshold_order_def rounded_order_def)

lemma threshold_findings:
  "highValueFindings example_now threshold_db
     = [high_purchase_finding example_now threshold_db rounded_order]"
  by (simp add: highValueFindings_rule threshold_db_def [of] threshold_fields
      threshold_decisions [unfolded threshold_db_def] hour_def)

theorem exact_threshold_counterexample:
  "exceeds_exactly example_now threshold_db threshold_order
   \<and> \<not> exceeds_exactly example_now threshold_db rounded_order
   \<and> recorded (with_faults [] (detectHighValuePurchases example_now threshold_db)) empty_state
       = [high_purchase_finding example_now threshold_db rounded_order]"
  by (simp add: threshold_decisions recorded_clean [OF clean_detectHighValuePurchases]
      threshold_findings)

text \<open>
  C6. When the purchaser of a pending order of the last hour has no approved order in the
  baseline window, average and maximum are 0, and if the amount is greater than 0 the
  finding of the order is recorded (in a sweep in which no awaited call fails).
\<close>

theorem cold_start_flagged:
  assumes "ord \<in> set (test_orders db)"
    and "status ord = ''pending''"
    and "now - hour \<le> created_at ord"
    and "0 < total_amount ord"
    and "\<forall>h \<in> set (test_orders db).
           o_user_id h = o_user_id ord \<and> status h = ''approved''
           \<longrightarrow> \<not> (now - 90 * day \<le> created_at h \<and> created_at h < now - hour)"
  shows "baseline_average now db (o_user_id ord) = 0
     \<and> baseline_maximum now db (o_user_id ord) = 0
     \<and> anomaly_row now ''high_purchase'' High (Some (o_user_id ord))
          (HighPurchaseDetails (o_id ord) (total_amount ord) 0)
        \<in> set (recorded (with_faults [] (detectHighValuePurchases now db)) s)"
proof -
  have empty: "baseline_amounts now db (o_user_id ord) = []"
    using assms(5) by (auto simp: baseline_amounts_def filter_empty_conv)
  then have zero: "baseline_average now db (o_user_id ord) = 0"
    "baseline_maximum now db (o_user_id ord) = 0"
    by (simp_all add: baseline_average_def baseline_maximum_def)
  then have "exceeds_baseline now db ord"
    using assms(4) by (simp add: exceeds_baseline_def)
  then have "high_purchase_finding now db ord \<in> set (highValueFindings now db)"
    using assms(1-3) by (simp add: highValueFindings_rule)
  then show ?thesis
    using zero
    by (simp add: recorded_clean [OF clean_detectHighValuePurchases] high_purchase_finding_def)
qed

text \<open>The instance of C6 at \<open>cold_db\<close>.\<close>

theorem cold_start_flagged_witness:
  "anomaly_row example_now ''high_purchase'' High (Some user1)
     (HighPurchaseDetails order1 10 0)
   \<in> set (recorded (with_faults [] (detectHighValuePurchases example_now cold_db))
        empty_state)"
  using cold_start_flagged [of cold_order cold_db example_now empty_state]
  by (simp add: cold_db_def cold_order_def hour_def)

section \<open>Authentication failures: C2\<close>













lemma clean_authFailureBody:
  "clean (authFailureBody now db item) ()
     [auth_failure_finding now (g_ip_address item) (g_user_id item) (g_count item)]"
  unfolding authFailureBody_def auth_failure_finding_def
  apply (rule clean_andThen_nil [OF clean_logger])
  apply (rule clean_andThen_nil [OF clean_getAdministrators])
  apply (rule clean_andThen_nil [OF clean_sendNotification])
  apply (rule clean_logAnomaly)
  done

lemma clean_detectAuthenticationFailures:
  "clean (detectAuthenticationFailures now db) () (authFailureFindings now db)"
proof -
  have "clean (forEach (authFailureBody now db) (failedLogins_rows now db)) ()
     (concat (map (\<lambda>item. [auth_failure_finding now (g_ip_address item) (g_user_id item)
        (g_count item)]) (failedLogins_rows now db)))"
    by (rule clean_forEach) (rule clean_authFailureBody)
  then have loop: "clean (forEach (authFailureBody now db) (failedLogins_rows now db)) ()
     (authFailureFindings now db)"
    by (simp add: authFailureFindings_def concat_map_singleton)
  show ?thesis
    unfolding detectAuthenticationFailures_def
    apply (rule clean_andThen_nil [OF clean_logger])
    apply (rule clean_try_catch)
    apply (rule clean_andThen_nil [OF clean_query])
    apply (rule loop)
    done
qed








section \<open>Unusual access: C3\<close>

lemma set_set_add: "set (set_add x xs) = insert x (set xs)"
  by (auto simp: set_add_def)

lemma map_of_update_entry:
  "map_of (map (\<lambda>(k, a). if k = uid then (k, g a) else (k, a)) m) k'
     = (if k' = uid then map_option g (map_of m k') else map_of m k')"
  by (induction m) auto

lemma keys_update_entry:
  "map fst (map (\<lambda>(k, a). if k = uid then (k, g a) else (k, a)) m) = map fst m"
  by (induction m) auto

lemma keys_collect_access:
  "map fst (collect_access m l) =
     (case user_id l of
        None \<Rightarrow> map fst m
      | Some uid \<Rightarrow>
          if uid = [] \<or> uid \<in> set (map fst m) then map fst m else map fst m @ [uid])"
  by (auto simp: collect_access_def keys_update_entry Let_def split: option.splits)

lemma distinct_collect_access:
  "distinct (map fst m) \<Longrightarrow> distinct (map fst (collect_access m l))"
  by (auto simp: keys_collect_access split: option.splits)

lemma map_of_append_new:
  "k \<notin> set (map fst m) \<Longrightarrow> map_of (m @ [(k, e)]) k' = (if k' = k then Some e else map_of m k')"
  by (induction m) auto

lemma access_of_collect_access:
  "access_of (collect_access m l) uid =
     (if user_id l = Some uid \<and> uid \<noteq> [] then record_access l (access_of m uid)
      else access_of m uid)"
proof (cases "user_id l")
  case None
  then show ?thesis by (simp add: collect_access_def)
next
  case (Some k)
  show ?thesis
  proof (cases "k = []")
    case True
    with Some show ?thesis by (auto simp: collect_access_def)
  next
    case False
    show ?thesis
    proof (cases "k \<in> fst ` set m")
      case True
      then obtain a where "map_of m k = Some a"
        by (metis domD dom_map_of_conv_image_fst)
      with Some False True show ?thesis
        by (auto simp: collect_access_def access_of_def map_of_update_entry)
    next
      case new: False
      let ?upd = "map (\<lambda>(k', a). if k' = k then (k', record_access l a) else (k', a)) m"
      let ?empty = "\<lparr>resources = [], ipAddresses = [], timestamps = []\<rparr>"
      have none: "map_of m k = None"
        using new by (simp add: map_of_eq_None_iff)
      have step: "collect_access m l = ?upd @ [(k, record_access l ?empty)]"
        using Some False new by (simp add: collect_access_def)
      have "k \<notin> set (map fst ?upd)"
        using new by (simp only: keys_update_entry) simp
      then have "map_of (collect_access m l) uid
          = (if uid = k then Some (record_access l ?empty) else map_of ?upd uid)"
        unfolding step by (rule map_of_append_new)
      with Some none False show ?thesis
        by (simp add: access_of_def map_of_update_entry)
    qed
  qed
qed

lemma keys_foldl_collect:
  "set (map fst (foldl collect_access m ls))
     = set (map fst m) \<union> {uid. uid \<noteq> [] \<and> (\<exists>l \<in> set ls. user_id l = Some uid)}"
proof (induction ls arbitrary: m)
  case Nil
  show ?case by simp
next
  case (Cons l ls)
  have "set (map fst (collect_access m l))
      = set (map fst m) \<union> {uid. uid \<noteq> [] \<and> user_id l = Some uid}"
    by (auto simp: keys_collect_access split: option.splits)
  then show ?case
    unfolding foldl_Cons Cons.IH by auto
qed

lemma distinct_foldl_collect:
  "distinct (map fst m) \<Longrightarrow> distinct (map fst (foldl collect_access m ls))"
  by (induction ls arbitrary: m) (simp_all add: distinct_collect_access)

lemma resources_foldl_collect:
  "uid \<noteq> [] \<Longrightarrow> set (resources (access_of (foldl collect_access m ls) uid))
     = set (resources (access_of m uid))
       \<union> resource ` {l \<in> set ls. user_id l = Some uid}"
proof (induction ls arbitrary: m)
  case Nil
  show ?case by simp
next
  case (Cons l ls)
  have "set (resources (access_of (collect_access m l) uid))
      = set (resources (access_of m uid)) \<union> resource ` {l' \<in> {l}. user_id l' = Some uid}"
    using Cons.prems
    by (auto simp: access_of_collect_access record_access_def set_set_add)
  then show ?case
    unfolding foldl_Cons Cons.IH [OF Cons.prems] by auto
qed

lemma ipAddresses_foldl_collect:
  "uid \<noteq> [] \<Longrightarrow> set (ipAddresses (access_of (foldl collect_access m ls) uid))
     = set (ipAddresses (access_of m uid))
       \<union> ip_address ` {l \<in> set ls. user_id l = Some uid}"
proof (induction ls arbitrary: m)
  case Nil
  show ?case by simp
next
  case (Cons l ls)
  have "set (ipAddresses (access_of (collect_access m l) uid))
      = set (ipAddresses (access_of m uid)) \<union> ip_address ` {l' \<in> {l}. user_id l' = Some uid}"
    using Cons.prems
    by (auto simp: access_of_collect_access record_access_def set_set_add)
  then show ?case
    unfolding foldl_Cons Cons.IH [OF Cons.prems] by auto
qed

lemma set_foldl_add_common:
  "set (foldl add_common acc past) = set acc \<union> (resource ` set past - {[]})"
  by (induction past arbitrary: acc) (auto simp: add_common_def set_set_add)

lemma foldl_count_ip_zero:
  "foldl count_ip freq past ip = 0
     \<longleftrightarrow> freq ip = 0 \<and> (ip = [] \<or> ip \<notin> ip_address ` set past)"
  by (induction past arbitrary: freq) (auto simp: count_ip_def)

lemma clean_unusualAccessBody:
  "clean (unusualAccessBody now db entry) () (unusualAccess_rows now db entry)"
proof (cases entry)
  case (Pair userId recentAccess)
  let ?past = "pastUserActivity_rows now db userId"
  let ?ur = "unusualResources_of ?past recentAccess"
  let ?ui = "unusualIps_of ?past recentAccess"
  let ?row = "anomaly_row now ''unusual_access'' Medium (Some userId)
     (UnusualAccessDetails (map_option username (findUnique_user db userId)) ?ur ?ui)"
  show ?thesis
  proof (cases "0 < length ?ur \<or> 0 < length ?ui")
    case True
    then have rows: "unusualAccess_rows now db entry = [?row]"
      using Pair by (simp add: unusualAccess_rows_def Let_def)
    have "clean (unusualAccessBody now db (userId, recentAccess)) () [?row]"
      unfolding unusualAccessBody_def prod.case
      apply (rule clean_andThen_nil [OF clean_query])
      using True apply (simp add: Let_def)
      apply (rule clean_andThen_nil [OF clean_query])
      apply (rule clean_andThen_nil [OF clean_logger])
      apply (rule clean_andThen_nil [OF clean_getAdministrators])
      apply (rule clean_andThen_nil [OF clean_sendNotification])
      apply (rule clean_logAnomaly)
      done
    with rows Pair show ?thesis by simp
  next
    case False
    then have rows: "unusualAccess_rows now db entry = []"
      using Pair by (simp add: unusualAccess_rows_def Let_def)
    have "clean (unusualAccessBody now db (userId, recentAccess)) () []"
      unfolding unusualAccessBody_def prod.case
      apply (rule clean_andThen_nil [OF clean_query])
      using False apply (simp add: Let_def clean_ret)
      done
    with rows Pair show ?thesis by simp
  qed
qed

lemma clean_detectUnusualAccess:
  "clean (detectUnusualAccess now db) () (unusualAccessFindings now db)"
  unfolding detectUnusualAccess_def unusualAccessFindings_def
  apply (rule clean_andThen_nil [OF clean_logger])
  apply (rule clean_try_catch)
  apply (rule clean_andThen_nil [OF clean_query])
  apply (rule clean_forEach)
  apply (rule clean_unusualAccessBody)
  done

lemma set_recentLogs_for:
  "{l \<in> set (recentLogs_rows now db). user_id l = Some uid} = set (recent_events now db uid)"
  by (auto simp: recentLogs_rows_def recent_events_def)

lemma set_pastUserActivity:
  "set (pastUserActivity_rows now db uid) = set (historical_events now db uid)"
  by (auto simp: pastUserActivity_rows_def historical_events_def)

lemma access_of_empty: "access_of [] uid = \<lparr>resources = [], ipAddresses = [], timestamps = []\<rparr>"
  by (simp add: access_of_def)

lemma recent_access_resources:
  "uid \<noteq> [] \<Longrightarrow>
   set (resources (access_of (foldl collect_access [] (recentLogs_rows now db)) uid))
     = set (map resource (recent_events now db uid))"
  by (simp add: resources_foldl_collect access_of_empty set_recentLogs_for)

lemma recent_access_ipAddresses:
  "uid \<noteq> [] \<Longrightarrow>
   set (ipAddresses (access_of (foldl collect_access [] (recentLogs_rows now db)) uid))
     = set (map ip_address (recent_events now db uid))"
  by (simp add: ipAddresses_foldl_collect access_of_empty set_recentLogs_for)

lemma recent_access_keys:
  "uid \<in> fst ` set (foldl collect_access [] (recentLogs_rows now db))
     \<longleftrightarrow> uid \<noteq> [] \<and> recent_events now db uid \<noteq> []"
proof -
  have "(\<exists>l \<in> set (recentLogs_rows now db). user_id l = Some uid)
      \<longleftrightarrow> set (recent_events now db uid) \<noteq> {}"
    unfolding set_recentLogs_for [symmetric] by auto
  moreover have "set (map fst (foldl collect_access [] (recentLogs_rows now db)))
      = set (map fst []) \<union>
        {uid. uid \<noteq> [] \<and> (\<exists>l \<in> set (recentLogs_rows now db). user_id l = Some uid)}"
    using keys_foldl_collect [of "[]" "recentLogs_rows now db"] by simp
  ultimately show ?thesis by simp
qed

lemma unusualResources_nonempty:
  "unusualResources_of (pastUserActivity_rows now db uid) a \<noteq> []
     \<longleftrightarrow> (\<exists>r \<in> set (resources a).
            r \<notin> set (named (map resource (historical_events now db uid))))"
proof -
  have "set (foldl add_common [] (pastUserActivity_rows now db uid))
      = set (named (map resource (historical_events now db uid)))"
    by (auto simp: set_foldl_add_common set_pastUserActivity named_def)
  then show ?thesis
    by (simp add: unusualResources_of_def filter_empty_conv)
qed

lemma unusualIps_nonempty:
  "unusualIps_of (pastUserActivity_rows now db uid) a \<noteq> []
     \<longleftrightarrow> (\<exists>ip \<in> set (ipAddresses a).
            ip \<notin> set (named (map ip_address (historical_events now db uid)))
            \<and> ip \<notin> set object_prototype_keys)"
proof -
  have "ip_seen (foldl count_ip (\<lambda>_. 0) (pastUserActivity_rows now db uid)) ip
      \<longleftrightarrow> ip \<in> set (named (map ip_address (historical_events now db uid)))
          \<or> ip \<in> set object_prototype_keys" for ip
    by (auto simp: ip_seen_def foldl_count_ip_zero set_pastUserActivity named_def)
  then show ?thesis
    by (auto simp: unusualIps_of_def filter_empty_conv)
qed

lemma unusualAccess_rows_user:
  "Some uid \<in> a_user_id ` set (unusualAccess_rows now db entry)
     \<longleftrightarrow> fst entry = uid \<and> unusualAccess_rows now db entry \<noteq> []"
  by (auto simp: unusualAccess_rows_def Let_def anomaly_row_def)

lemma flagged_in_findings:
  "Some uid \<in> set (map a_user_id (unusualAccessFindings now db))
     \<longleftrightarrow> (\<exists>a. (uid, a) \<in> set (foldl collect_access [] (recentLogs_rows now db))
            \<and> unusualAccess_rows now db (uid, a) \<noteq> [])"
proof -
  let ?m = "foldl collect_access [] (recentLogs_rows now db)"
  have "Some uid \<in> set (map a_user_id (unusualAccessFindings now db))
      \<longleftrightarrow> (\<exists>entry \<in> set ?m. Some uid \<in> a_user_id ` set (unusualAccess_rows now db entry))"
    by (auto simp: unusualAccessFindings_def)
  also have "\<dots> \<longleftrightarrow> (\<exists>entry \<in> set ?m. fst entry = uid
      \<and> unusualAccess_rows now db entry \<noteq> [])"
    by (simp only: unusualAccess_rows_user)
  also have "\<dots> \<longleftrightarrow> (\<exists>a. (uid, a) \<in> set ?m \<and> unusualAccess_rows now db (uid, a) \<noteq> [])"
    by force
  finally show ?thesis .
qed

lemma entry_access_of:
  assumes "(uid, a) \<in> set (foldl collect_access [] (recentLogs_rows now db))"
  shows "a = access_of (foldl collect_access [] (recentLogs_rows now db)) uid"
proof -
  have "distinct (map fst (foldl collect_access [] (recentLogs_rows now db)))"
    by (rule distinct_foldl_collect) simp
  with assms have "map_of (foldl collect_access [] (recentLogs_rows now db)) uid = Some a"
    by simp
  then show ?thesis by (simp add: access_of_def)
qed

lemma unusualAccess_rows_nonempty:
  "unusualAccess_rows now db (uid, a) \<noteq> []
     \<longleftrightarrow> unusualResources_of (pastUserActivity_rows now db uid) a \<noteq> []
          \<or> unusualIps_of (pastUserActivity_rows now db uid) a \<noteq> []"
  by (simp add: unusualAccess_rows_def Let_def)

lemma unusual_access_flagged_core:
  "unusual_access_flagged now db s uid
     \<longleftrightarrow> uid \<noteq> []
        \<and> ((\<exists>r \<in> set (map resource (recent_events now db uid)).
               r \<notin> set (named (map resource (historical_events now db uid))))
           \<or> (\<exists>ip \<in> set (map ip_address (recent_events now db uid)).
               ip \<notin> set (named (map ip_address (historical_events now db uid)))
               \<and> ip \<notin> set object_prototype_keys))"
  (is "?flagged \<longleftrightarrow> uid \<noteq> [] \<and> ?unusual")
proof -
  let ?m = "foldl collect_access [] (recentLogs_rows now db)"
  have flagged: "?flagged
      \<longleftrightarrow> (\<exists>a. (uid, a) \<in> set ?m \<and> unusualAccess_rows now db (uid, a) \<noteq> [])"
    unfolding unusual_access_flagged_def recorded_clean [OF clean_detectUnusualAccess]
    by (rule flagged_in_findings)
  show ?thesis
  proof (cases "uid = []")
    case True
    have "uid \<notin> fst ` set ?m"
      using True by (simp add: recent_access_keys)
    then have "\<not> (\<exists>a. (uid, a) \<in> set ?m)"
      by force
    with True flagged show ?thesis by simp
  next
    case False
    let ?a = "access_of ?m uid"
    have res: "set (resources ?a) = set (map resource (recent_events now db uid))"
      using False by (rule recent_access_resources)
    have ips: "set (ipAddresses ?a) = set (map ip_address (recent_events now db uid))"
      using False by (rule recent_access_ipAddresses)
    have rule: "unusualAccess_rows now db (uid, ?a) \<noteq> [] \<longleftrightarrow> ?unusual"
      unfolding unusualAccess_rows_nonempty unusualResources_nonempty
        unusualIps_nonempty res ips ..
    show ?thesis
    proof (cases "recent_events now db uid = []")
      case True
      then have "uid \<notin> fst ` set ?m"
        by (simp add: recent_access_keys)
      then have "\<not> (\<exists>a. (uid, a) \<in> set ?m)"
        by force
      moreover have "\<not> ?unusual"
        using True by simp
      ultimately show ?thesis using flagged by simp
    next
      case nonempty: False
      with False have "uid \<in> fst ` set ?m"
        by (simp add: recent_access_keys)
      then obtain a where a: "(uid, a) \<in> set ?m"
        by auto
      then have "a = ?a" by (rule entry_access_of)
      with a have "(\<exists>a. (uid, a) \<in> set ?m \<and> unusualAccess_rows now db (uid, a) \<noteq> [])
          \<longleftrightarrow> unusualAccess_rows now db (uid, ?a) \<noteq> []"
        using entry_access_of by blast
      with flagged rule False show ?thesis by simp
    qed
  qed
qed

text \<open>
  C3, as amended. In a sweep in which no awaited call fails, and for a user none of whose
  recent source IPs is the name of a property of \<open>Object.prototype\<close>, the detector
  flags the user if and only if the user id is not the empty string and some recent
  resource is not among the non-empty historical resource names, or some recent source
  IP is not among the non-empty historical source IPs, of the user in
  \<open>[now - 30 days, now - 2 hours)\<close>.
\<close>

theorem unusual_access_flags_iff:
  assumes "\<forall>l \<in> set (recent_events now db uid). ip_address l \<notin> set object_prototype_keys"
  shows "unusual_access_flagged now db s uid
     \<longleftrightarrow> uid \<noteq> [] \<and> unusual_by_named_history now db uid"
proof -
  have "(\<exists>ip \<in> set (map ip_address (recent_events now db uid)).
           ip \<notin> set (named (map ip_address (historical_events now db uid)))
           \<and> ip \<notin> set object_prototype_keys)
      \<longleftrightarrow> (\<exists>ip \<in> set (map ip_address (recent_events now db uid)).
           ip \<notin> set (named (map ip_address (historical_events now db uid))))"
    using assms by auto
  then show ?thesis
    unfolding unusual_access_flagged_core unusual_by_named_history_def by simp
qed

text \<open>
  C3 as the specification states it fails at \<open>access_db\<close>: the first user is flagged
  although the only recent resource, the empty string, and the recent IP both occur in the
  history; the user with the empty id is not flagged although the resource is new; and
  the second user is not flagged although the source IP \<open>constructor\<close> is new.
\<close>

lemma visit_fields:
  "user_id (visit uid r ip t) = uid" "resource (visit uid r ip t) = r"
  "ip_address (visit uid r ip t) = ip" "timestamp (visit uid r ip t) = t"
  by (simp_all add: visit_def)

lemma access_db_recent:
  "recent_events example_now access_db user1
     = [visit (Some user1) [] ''10.0.0.1'' (example_now - 1000)]"
  "recent_events example_now access_db []
     = [visit (Some []) ''orders'' ''10.0.0.9'' (example_now - 1000)]"
  "recent_events example_now access_db user2
     = [visit (Some user2) ''orders'' ''constructor'' (example_now - 1000)]"
  "recent_events example_now access_db user3
     = [visit (Some user3) ''admin'' ''10.0.0.3'' (example_now - 1000)]"
  "recent_events example_now access_db user4
     = [visit (Some user4) ''orders'' ''10.0.0.4'' (example_now - 1000)]"
  by (simp_all add: recent_events_def access_db_def visit_fields hour_def)

lemma access_db_historical:
  "historical_events example_now access_db user1
     = [visit (Some user1) [] ''10.0.0.1'' (example_now - 5 * hour)]"
  "historical_events example_now access_db [] = []"
  "historical_events example_now access_db user2
     = [visit (Some user2) ''orders'' ''10.0.0.2'' (example_now - 5 * hour)]"
  "historical_events example_now access_db user3
     = [visit (Some user3) ''orders'' ''10.0.0.3'' (example_now - 5 * hour)]"
  "historical_events example_now access_db user4
     = [visit (Some user4) ''orders'' ''10.0.0.4'' (example_now - 5 * hour)]"
  by (simp_all add: historical_events_def access_db_def visit_fields hour_def day_def)

theorem unusual_access_claim_counterexample:
  "(unusual_access_flagged example_now access_db empty_state user1
      \<and> \<not> unusual_by_history example_now access_db user1)
   \<and> (\<not> unusual_access_flagged example_now access_db empty_state []
      \<and> unusual_by_history example_now access_db [])
   \<and> (\<not> unusual_access_flagged example_now access_db empty_state user2
      \<and> unusual_by_history example_now access_db user2)"
  by (simp add: unusual_access_flagged_core unusual_by_history_def access_db_recent
      access_db_historical visit_fields named_def object_prototype_keys_def)

text \<open>
  The instance of C3 at \<open>access_db\<close>: the third user reaches a new resource and
  is flagged, the fourth repeats the history and is not.
\<close>

theorem unusual_access_flags_iff_witness:
  "unusual_access_flagged example_now access_db empty_state user3
   \<and> \<not> unusual_access_flagged example_now access_db empty_state user4"
  using unusual_access_flags_iff [of example_now access_db "user3" empty_state]
    unusual_access_flags_iff [of example_now access_db "user4" empty_state]
  by (simp add: unusual_by_named_history_def access_db_recent access_db_historical
      visit_fields named_def object_prototype_keys_def)

section \<open>Runs under any fault script: C10\<close>

lemma triI: "(\<And>s. P s \<Longrightarrow> Q (snd (m s))) \<Longrightarrow> tri P m Q"
  by (simp add: tri_def)

lemma triD: "tri P m Q \<Longrightarrow> P s \<Longrightarrow> Q (snd (m s))"
  by (simp add: tri_def)

lemma tri_ret: "tri P (ret x) P"
  by (simp add: tri_def ret_def)

lemma tri_weaken: "tri P m Q \<Longrightarrow> (\<And>s. Q s \<Longrightarrow> R s) \<Longrightarrow> tri P m R"
  by (simp add: tri_def)

lemma tri_andThen:
  assumes "tri P m Q" and "\<And>x. tri Q (f x) R" and "\<And>s. Q s \<Longrightarrow> R s"
  shows "tri P (andThen m f) R"
proof (rule triI)
  fix s assume "P s"
  with assms(1) have q: "Q (snd (m s))" by (rule triD)
  obtain r s1 where run: "m s = (r, s1)" by (cases "m s")
  with q have q1: "Q s1" by simp
  show "R (snd (andThen m f s))"
  proof (cases r)
    case (Inl e)
    with run q1 assms(3) show ?thesis by (simp add: andThen_def)
  next
    case (Inr x)
    from assms(2) q1 have "R (snd (f x s1))" by (rule triD)
    with run Inr show ?thesis by (simp add: andThen_def)
  qed
qed

lemma tri_try_catch:
  assumes "tri P m Q" and "\<And>e. tri Q (h e) R" and "\<And>s. Q s \<Longrightarrow> R s"
  shows "tri P (try_catch m h) R"
proof (rule triI)
  fix s assume "P s"
  with assms(1) have q: "Q (snd (m s))" by (rule triD)
  obtain r s1 where run: "m s = (r, s1)" by (cases "m s")
  with q have q1: "Q s1" by simp
  show "R (snd (try_catch m h s))"
  proof (cases r)
    case (Inl e)
    from assms(2) q1 have "R (snd (h e s1))" by (rule triD)
    with run Inl show ?thesis by (simp add: try_catch_def)
  next
    case (Inr x)
    with run q1 assms(3) show ?thesis by (simp add: try_catch_def)
  qed
qed

lemma tri_forEach:
  assumes "\<And>x. tri I (body x) I"
  shows "tri I (forEach body xs) I"
proof (induction xs)
  case Nil
  show ?case by (simp add: tri_ret)
next
  case (Cons x xs)
  have "tri I (andThen (body x) (\<lambda>_. forEach body xs)) I"
    using assms Cons by (rule tri_andThen)
  then show ?case by simp
qed

lemma tri_emit:
  assumes "\<And>s. P s \<Longrightarrow> Q (s\<lparr>trace := trace s @ [e]\<rparr>)"
  shows "tri P (emit e) Q"
  using assms by (simp add: tri_def emit_def)

lemma tri_await:
  assumes "\<And>s. P s \<Longrightarrow> Q (snd (act s))"
    and "\<And>s. P s \<Longrightarrow> Q s"
    and "\<And>s bs. P s \<Longrightarrow> P (s\<lparr>faults := bs\<rparr>)"
  shows "tri P (await e act) Q"
proof (rule triI)
  fix s assume p: "P s"
  show "Q (snd (await e act s))"
  proof (cases "faults s")
    case Nil
    with assms(1) [OF p] show ?thesis
      by (auto simp: await_def split: prod.splits)
  next
    case (Cons b bs)
    have p': "P (s\<lparr>faults := bs\<rparr>)" using p by (rule assms(3))
    show ?thesis
    proof (cases b)
      case True
      with Cons assms(2) [OF p'] show ?thesis by (simp add: await_def)
    next
      case False
      with Cons assms(1) [OF p'] show ?thesis
        by (auto simp: await_def split: prod.splits)
    qed
  qed
qed

lemma tri_with_faults:
  assumes "tri P m Q" and "\<And>s. P s \<Longrightarrow> P (s\<lparr>faults := fs\<rparr>)"
  shows "tri P (with_faults fs m) Q"
  using assms by (simp add: tri_def with_faults_def)

lemma snd_promise_all3:
  "snd (promise_all3 a b c s) = snd (c (snd (b (snd (a s)))))"
  by (auto simp: promise_all3_def split: prod.splits sum.splits)

lemma tri_promise_all3:
  assumes "tri I a I" and "tri I b I" and "tri I c I"
  shows "tri I (promise_all3 a b c) I"
proof (rule triI)
  fix s assume "I s"
  with assms(1) have "I (snd (a s))" by (rule triD)
  with assms(2) have "I (snd (b (snd (a s))))" by (rule triD)
  with assms(3) have "I (snd (c (snd (b (snd (a s))))))" by (rule triD)
  then show "I (snd (promise_all3 a b c s))"
    by (simp only: snd_promise_all3)
qed

lemma andThen_logger:
  "andThen (logger l) f s = f () (s\<lparr>trace := trace s @ [Logged l]\<rparr>)"
  by (simp add: andThen_def logger_def emit_def)

lemma try_catch_logger_returns:
  "fst (try_catch m (\<lambda>err. logger (f err)) s) = Inr ()"
proof -
  obtain r s1 where run: "m s = (r, s1)" by (cases "m s")
  show ?thesis
  proof (cases r)
    case (Inl e)
    with run show ?thesis by (simp add: try_catch_def logger_def emit_def)
  next
    case (Inr x)
    with run show ?thesis by (simp add: try_catch_def)
  qed
qed

lemma detectHighValuePurchases_returns: "fst (detectHighValuePurchases now db s) = Inr ()"
  unfolding detectHighValuePurchases_def andThen_logger by (rule try_catch_logger_returns)

lemma detectAuthenticationFailures_returns:
  "fst (detectAuthenticationFailures now db s) = Inr ()"
  unfolding detectAuthenticationFailures_def andThen_logger by (rule try_catch_logger_returns)

lemma detectUnusualAccess_returns: "fst (detectUnusualAccess now db s) = Inr ()"
  unfolding detectUnusualAccess_def andThen_logger by (rule try_catch_logger_returns)

lemma logAnomaly_returns: "fst (logAnomaly now ty sev uid det s) = Inr ()"
  unfolding logAnomaly_def by (rule try_catch_logger_returns)

lemma getAdministrators_returns: "\<exists>ids. fst (getAdministrators db r s) = Inr ids"
proof -
  let ?m = "andThen (query (administrators_rows db r)) (\<lambda>admins. ret (map u_id admins))"
  obtain res s1 where run: "?m s = (res, s1)" by (cases "?m s")
  show ?thesis
  proof (cases res)
    case (Inl e)
    with run show ?thesis
      by (simp add: getAdministrators_def try_catch_def andThen_logger ret_def)
  next
    case (Inr ids)
    with run show ?thesis
      by (simp add: getAdministrators_def try_catch_def)
  qed
qed

lemma fst_promise_all3:
  assumes "\<And>s. fst (a s) = Inr ()" and "\<And>s. fst (b s) = Inr ()"
    and "\<And>s. fst (c s) = Inr ()"
  shows "fst (promise_all3 a b c s) = Inr ()"
proof -
  obtain s1 where a: "a s = (Inr (), s1)"
    using assms(1) [of s] by (cases "a s") simp
  obtain s2 where b: "b s1 = (Inr (), s2)"
    using assms(2) [of s1] by (cases "b s1") simp
  obtain s3 where c: "c s2 = (Inr (), s3)"
    using assms(3) [of s2] by (cases "c s2") simp
  from a b c show ?thesis by (simp add: promise_all3_def)
qed

lemma detectAnomalies_returns: "fst (detectAnomalies fs now db s) = Inr ()"
proof (cases fs)
  case (fields f1 f2 f3)
  let ?all = "promise_all3 (with_faults f1 (detectHighValuePurchases now db))
     (with_faults f2 (detectAuthenticationFailures now db))
     (with_faults f3 (detectUnusualAccess now db))"
  let ?s1 = "s\<lparr>trace := trace s @ [Logged SweepStarted]\<rparr>"
  have "fst (?all ?s1) = Inr ()"
    by (rule fst_promise_all3)
      (simp_all add: with_faults_def detectHighValuePurchases_returns
        detectAuthenticationFailures_returns detectUnusualAccess_returns)
  then obtain s2 where "?all ?s1 = (Inr (), s2)"
    by (cases "?all ?s1") simp
  then show ?thesis
    unfolding detectAnomalies_def fields prod.case andThen_logger
    by (simp add: andThen_def logger_def emit_def)
qed

text \<open>
  C10. From every state and under every fault script, also one in which every query,
  every insert and every notification fails, the sweep returns normally; so does each
  detector, whose \<open>catch\<close> takes every error of its body, and so do the
  administrator lookup and the recorder, which take their own.
\<close>

theorem sweep_never_rejects:
  "fst (detectAnomalies fs now db s) = Inr ()
   \<and> fst (detectHighValuePurchases now db s) = Inr ()
   \<and> fst (detectAuthenticationFailures now db s) = Inr ()
   \<and> fst (detectUnusualAccess now db s) = Inr ()
   \<and> (\<exists>ids. fst (getAdministrators db r s) = Inr ids)
   \<and> fst (logAnomaly now ty sev uid det s) = Inr ()"
  using getAdministrators_returns [of db r s]
  by (simp add: detectAnomalies_returns detectHighValuePurchases_returns
      detectAuthenticationFailures_returns detectUnusualAccess_returns logAnomaly_returns)

text \<open>The instance of C10 where the first awaited call of every detector fails.\<close>

theorem sweep_never_rejects_witness:
  "fst (detectAnomalies ([True], [True], [True]) example_now cold_db empty_state) = Inr ()"
  using sweep_never_rejects [of "([True], [True], [True])" example_now cold_db empty_state]
  by simp

section \<open>What holds throughout a sweep\<close>

lemma inv_logger: "sweep_invariant I \<Longrightarrow> tri I (logger l) I"
  unfolding logger_def by (rule tri_emit) (simp add: sweep_invariant_def)

lemma inv_query: "sweep_invariant I \<Longrightarrow> tri I (query rows) I"
  unfolding query_def by (rule tri_await) (simp_all add: sweep_invariant_def)

lemma inv_andThen:
  "tri I m I \<Longrightarrow> (\<And>x. tri I (f x) I) \<Longrightarrow> tri I (andThen m f) I"
  by (rule tri_andThen)

lemma inv_try_catch:
  "tri I m I \<Longrightarrow> (\<And>e. tri I (h e) I) \<Longrightarrow> tri I (try_catch m h) I"
  by (rule tri_try_catch)

lemma inv_getAdministrators:
  assumes "sweep_invariant I"
  shows "tri I (getAdministrators db r) I"
  unfolding getAdministrators_def
  apply (rule inv_try_catch)
   apply (rule inv_andThen [OF inv_query [OF assms]])
   apply (rule tri_ret)
  apply (rule inv_andThen [OF inv_logger [OF assms]])
  apply (rule tri_ret)
  done

lemma inv_notify_and_record:
  assumes "sweep_invariant I" and "reports n (anomaly_row now ty sev uid det)"
  shows "tri I (andThen (sendNotification n) (\<lambda>_. logAnomaly now ty sev uid det)) I"
  using assms by (simp add: sweep_invariant_def)

lemma inv_highValueBody:
  assumes "sweep_invariant I"
  shows "tri I (highValueBody now db purchase) I"
  unfolding highValueBody_def Let_def
  apply (rule inv_andThen [OF inv_query [OF assms]])
  apply (simp only: split: if_split)
  apply (intro conjI impI)
   apply (rule inv_andThen [OF inv_logger [OF assms]])
   apply (rule inv_andThen [OF inv_getAdministrators [OF assms]])
   apply (rule inv_notify_and_record [OF assms])
   apply (simp add: reports_def anomaly_row_def)
  apply (rule tri_ret)
  done

lemma inv_authFailureBody:
  assumes "sweep_invariant I"
  shows "tri I (authFailureBody now db item) I"
  unfolding authFailureBody_def
  apply (rule inv_andThen [OF inv_logger [OF assms]])
  apply (rule inv_andThen [OF inv_getAdministrators [OF assms]])
  apply (rule inv_notify_and_record [OF assms])
  apply (simp add: reports_def anomaly_row_def)
  done

lemma inv_unusualAccessBody:
  assumes "sweep_invariant I"
  shows "tri I (unusualAccessBody now db entry) I"
proof (cases entry)
  case (Pair userId recentAccess)
  show ?thesis
    unfolding unusualAccessBody_def Pair prod.case Let_def
    apply (rule inv_andThen [OF inv_query [OF assms]])
    apply (simp only: split: if_split)
    apply (intro conjI impI)
     apply (rule inv_andThen [OF inv_query [OF assms]])
     apply (rule inv_andThen [OF inv_logger [OF assms]])
     apply (rule inv_andThen [OF inv_getAdministrators [OF assms]])
     apply (rule inv_notify_and_record [OF assms])
     apply (simp add: reports_def anomaly_row_def)
    apply (rule tri_ret)
    done
qed

lemma inv_detectHighValuePurchases:
  assumes "sweep_invariant I"
  shows "tri I (detectHighValuePurchases now db) I"
  unfolding detectHighValuePurchases_def
  apply (rule inv_andThen [OF inv_logger [OF assms]])
  apply (rule inv_try_catch)
   apply (rule inv_andThen [OF inv_query [OF assms]])
   apply (rule tri_forEach)
   apply (rule inv_highValueBody [OF assms])
  apply (rule inv_logger [OF assms])
  done

lemma inv_detectAuthenticationFailures:
  assumes "sweep_invariant I"
  shows "tri I (detectAuthenticationFailures now db) I"
  unfolding detectAuthenticationFailures_def
  apply (rule inv_andThen [OF inv_logger [OF assms]])
  apply (rule inv_try_catch)
   apply (rule inv_andThen [OF inv_query [OF assms]])
   apply (rule tri_forEach)
   apply (rule inv_authFailureBody [OF assms])
  apply (rule inv_logger [OF assms])
  done

lemma inv_detectUnusualAccess:
  assumes "sweep_invariant I"
  shows "tri I (detectUnusualAccess now db) I"
  unfolding detectUnusualAccess_def
  apply (rule inv_andThen [OF inv_logger [OF assms]])
  apply (rule inv_try_catch)
   apply (rule inv_andThen [OF inv_query [OF assms]])
   apply (rule tri_forEach)
   apply (rule inv_unusualAccessBody [OF assms])
  apply (rule inv_logger [OF assms])
  done

lemma inv_with_faults:
  assumes "sweep_invariant I" and "tri I m I"
  shows "tri I (with_faults fs m) I"
  using assms(2) by (rule tri_with_faults) (use assms(1) in \<open>simp add: sweep_invariant_def\<close>)

lemma inv_detectAnomalies:
  assumes "sweep_invariant I"
  shows "tri I (detectAnomalies fs now db) I"
proof (cases fs)
  case (fields f1 f2 f3)
  show ?thesis
    unfolding detectAnomalies_def fields prod.case
    apply (rule inv_andThen [OF inv_logger [OF assms]])
    apply (rule inv_andThen)
     apply (rule tri_promise_all3)
       apply (rule inv_with_faults [OF assms inv_detectHighValuePurchases [OF assms]])
      apply (rule inv_with_faults [OF assms inv_detectAuthenticationFailures [OF assms]])
     apply (rule inv_with_faults [OF assms inv_detectUnusualAccess [OF assms]])
    apply (rule inv_logger [OF assms])
    done
qed

section \<open>The rows of a sweep\<close>

lemma grown_append:
  assumes "grown base s" and "unresolved row"
  shows "grown base (s\<lparr>anomaly_logs := anomaly_logs s @ [row], trace := t\<rparr>)"
proof -
  from assms(1) have "length base \<le> length (anomaly_logs s)"
    unfolding grown_def by (metis length_take min.cobounded1)
  with assms show ?thesis
    by (simp add: grown_def)
qed

lemma unresolved_anomaly_row: "unresolved (anomaly_row now ty sev uid det)"
  by (simp add: unresolved_def anomaly_row_def)

lemma grown_logAnomaly: "tri (grown base) (logAnomaly now ty sev uid det) (grown base)"
  unfolding logAnomaly_def create_anomaly_def
  apply (rule inv_try_catch)
   apply (rule tri_await)
     apply (simp add: grown_append unresolved_anomaly_row)
    apply assumption
   apply (simp add: grown_def)
  apply (simp add: logger_def)
  apply (rule tri_emit)
  apply (simp add: grown_def)
  done

lemma grown_sendNotification: "tri (grown base) (sendNotification n) (grown base)"
  unfolding sendNotification_def
  apply (rule inv_andThen)
   apply (rule tri_emit)
   apply (simp add: grown_def)
  apply (rule tri_await)
    apply simp_all
  apply (simp add: grown_def)
  done

lemma grown_invariant: "sweep_invariant (grown base)"
  unfolding sweep_invariant_def
proof (intro conjI allI impI)
  fix n now ty sev uid det
  show "tri (grown base) (andThen (sendNotification n) (\<lambda>_. logAnomaly now ty sev uid det))
     (grown base)"
    by (rule inv_andThen) (rule grown_sendNotification, rule grown_logAnomaly)
qed (simp_all add: grown_def)

lemma grown_self: "grown (anomaly_logs s) s"
  by (simp add: grown_def)

lemma grown_recorded:
  assumes "tri (grown (anomaly_logs s)) m (grown (anomaly_logs s))"
  shows "list_all unresolved (recorded m s)"
    and "prefix (anomaly_logs s) (anomaly_logs (snd (m s)))"
proof -
  have g: "grown (anomaly_logs s) (snd (m s))"
    using assms grown_self by (rule triD)
  then show "list_all unresolved (recorded m s)"
    by (simp add: grown_def recorded_def)
  from g have "take (length (anomaly_logs s)) (anomaly_logs (snd (m s))) = anomaly_logs s"
    by (simp add: grown_def)
  then show "prefix (anomaly_logs s) (anomaly_logs (snd (m s)))"
    by (metis take_is_prefix)
qed

lemma recorded_append:
  assumes "tri (grown (anomaly_logs s)) m (grown (anomaly_logs s))"
  shows "anomaly_logs (snd (m s)) = anomaly_logs s @ recorded m s"
proof -
  have "prefix (anomaly_logs s) (anomaly_logs (snd (m s)))"
    using assms by (rule grown_recorded)
  then obtain xs where "anomaly_logs (snd (m s)) = anomaly_logs s @ xs"
    by (auto simp: prefix_def)
  then show ?thesis by (simp add: recorded_def)
qed

lemma detector_rows:
  "anomaly_logs (snd (with_faults f (detectHighValuePurchases now db) s))
     = anomaly_logs s @ recorded (with_faults f (detectHighValuePurchases now db)) s"
  "anomaly_logs (snd (with_faults f (detectAuthenticationFailures now db) s))
     = anomaly_logs s @ recorded (with_faults f (detectAuthenticationFailures now db)) s"
  "anomaly_logs (snd (with_faults f (detectUnusualAccess now db) s))
     = anomaly_logs s @ recorded (with_faults f (detectUnusualAccess now db)) s"
  by (rule recorded_append, rule inv_with_faults [OF grown_invariant],
      rule inv_detectHighValuePurchases inv_detectAuthenticationFailures
        inv_detectUnusualAccess, rule grown_invariant)+

lemma sweep_rows:
  "\<exists>s1 s2 s3.
     anomaly_logs (snd (detectAnomalies (f1, f2, f3) now db s))
       = anomaly_logs s
         @ recorded (with_faults f1 (detectHighValuePurchases now db)) s1
         @ recorded (with_faults f2 (detectAuthenticationFailures now db)) s2
         @ recorded (with_faults f3 (detectUnusualAccess now db)) s3"
proof -
  let ?a = "with_faults f1 (detectHighValuePurchases now db)"
  let ?b = "with_faults f2 (detectAuthenticationFailures now db)"
  let ?c = "with_faults f3 (detectUnusualAccess now db)"
  let ?s1 = "s\<lparr>trace := trace s @ [Logged SweepStarted]\<rparr>"
  let ?s2 = "snd (?a ?s1)"
  let ?s3 = "snd (?b ?s2)"
  let ?s4 = "snd (?c ?s3)"
  have all: "fst (promise_all3 ?a ?b ?c ?s1) = Inr ()"
    by (rule fst_promise_all3)
      (simp_all add: with_faults_def detectHighValuePurchases_returns
        detectAuthenticationFailures_returns detectUnusualAccess_returns)
  have "snd (promise_all3 ?a ?b ?c ?s1) = ?s4"
    by (rule snd_promise_all3)
  with all have run: "promise_all3 ?a ?b ?c ?s1 = (Inr (), ?s4)"
    by (simp add: prod_eq_iff)
  have "snd (detectAnomalies (f1, f2, f3) now db s)
      = ?s4\<lparr>trace := trace ?s4 @ [Logged SweepCompleted]\<rparr>"
    unfolding detectAnomalies_def prod.case andThen_logger
    using run by (simp add: andThen_def logger_def emit_def)
  then have "anomaly_logs (snd (detectAnomalies (f1, f2, f3) now db s)) = anomaly_logs ?s4"
    by simp
  also have "\<dots> = anomaly_logs ?s3 @ recorded ?c ?s3"
    by (rule detector_rows)
  also have "anomaly_logs ?s3 = anomaly_logs ?s2 @ recorded ?b ?s2"
    by (rule detector_rows)
  also have "anomaly_logs ?s2 = anomaly_logs ?s1 @ recorded ?a ?s1"
    by (rule detector_rows)
  finally show ?thesis by auto
qed

lemma sweep_recorded:
  "\<exists>s1 s2 s3.
     recorded (detectAnomalies (f1, f2, f3) now db) s
       = recorded (with_faults f1 (detectHighValuePurchases now db)) s1
         @ recorded (with_faults f2 (detectAuthenticationFailures now db)) s2
         @ recorded (with_faults f3 (detectUnusualAccess now db)) s3"
proof -
  from sweep_rows [of f1 f2 f3 now db s] obtain s1 s2 s3 where
    "anomaly_logs (snd (detectAnomalies (f1, f2, f3) now db s))
       = anomaly_logs s
         @ recorded (with_faults f1 (detectHighValuePurchases now db)) s1
         @ recorded (with_faults f2 (detectAuthenticationFailures now db)) s2
         @ recorded (with_faults f3 (detectUnusualAccess now db)) s3"
    by blast
  then have "recorded (detectAnomalies (f1, f2, f3) now db) s
       = recorded (with_faults f1 (detectHighValuePurchases now db)) s1
         @ recorded (with_faults f2 (detectAuthenticationFailures now db)) s2
         @ recorded (with_faults f3 (detectUnusualAccess now db)) s3"
    by (simp add: recorded_def [of "detectAnomalies (f1, f2, f3) now db"])
  then show ?thesis by blast
qed

lemma sweep_clean_rows:
  "anomaly_logs (snd (detectAnomalies ([], [], []) now db s))
     = anomaly_logs s @ highValueFindings now db @ authFailureFindings now db
       @ unusualAccessFindings now db"
  using sweep_rows [of "[]" "[]" "[]" now db s]
  by (auto simp: recorded_clean [OF clean_detectHighValuePurchases]
      recorded_clean [OF clean_detectAuthenticationFailures]
      recorded_clean [OF clean_detectUnusualAccess])

lemma sweep_clean_recorded:
  "recorded (detectAnomalies ([], [], []) now db) s
     = highValueFindings now db @ authFailureFindings now db @ unusualAccessFindings now db"
  by (simp add: recorded_def sweep_clean_rows)

lemma logAnomaly_clean_rows:
  "anomaly_logs (snd (with_faults [] (logAnomaly now ty sev uid det) s))
     = anomaly_logs s @ [anomaly_row now ty sev uid det]"
  by (rule clean_with_faults(2) [OF clean_logAnomaly])

text \<open>Runs of the detector and of the sweep at \<open>cold_db\<close>.\<close>

lemmas run_defs = with_faults_def andThen_def try_catch_def ret_def logger_def emit_def
  await_def query_def getAdministrators_def sendNotification_def logAnomaly_def
  create_anomaly_def






lemma cold_baseline: "baseline_amounts example_now cold_db user1 = []"
  by (simp add: baseline_amounts_def cold_db_def cold_order_def)

lemma cold_highValueFindings: "highValueFindings example_now cold_db = [cold_finding]"
  by (simp add: highValueFindings_rule cold_db_def cold_order_def hour_def
      exceeds_baseline_def baseline_average_def baseline_maximum_def
      cold_baseline [unfolded cold_db_def cold_order_def]
      high_purchase_finding_def cold_finding_def)

lemma cold_authFailureFindings: "authFailureFindings example_now cold_db = []"
  by (simp add: authFailureFindings_def failedLogins_rows_def cold_db_def)

lemma cold_unusualAccessFindings: "unusualAccessFindings example_now cold_db = []"
  by (simp add: unusualAccessFindings_def recentLogs_rows_def cold_db_def)

lemma cold_sweep_recorded:
  "recorded (detectAnomalies ([], [], []) example_now cold_db) s = [cold_finding]"
  by (simp add: sweep_clean_recorded cold_highValueFindings cold_authFailureFindings
      cold_unusualAccessFindings)

section \<open>Recorded rows are unresolved: C9\<close>

text \<open>
  C9. Under every fault script, every row that the recorder inserts, and every row that
  a sweep adds to \<open>anomaly_logs\<close>, has \<open>is_resolved\<close> false and
  \<open>resolved_at\<close>, \<open>resolved_by\<close> and \<open>notes\<close> unset; so for these rows
  \<open>resolved_at\<close> and \<open>resolved_by\<close> are set if and only if \<open>is_resolved\<close>
  is true.
\<close>

theorem recorded_findings_unresolved:
  "(\<forall>row \<in> set (recorded (logAnomaly now ty sev uid det) s).
      is_resolved row = False \<and> resolved_at row = None \<and> resolved_by row = None
      \<and> a_notes row = None
      \<and> ((resolved_at row \<noteq> None \<and> resolved_by row \<noteq> None) \<longleftrightarrow> is_resolved row))
   \<and> (\<forall>row \<in> set (recorded (detectAnomalies fs now db) s).
      is_resolved row = False \<and> resolved_at row = None \<and> resolved_by row = None
      \<and> a_notes row = None
      \<and> ((resolved_at row \<noteq> None \<and> resolved_by row \<noteq> None) \<longleftrightarrow> is_resolved row))"
proof -
  have "list_all unresolved (recorded (logAnomaly now ty sev uid det) s)"
    by (rule grown_recorded) (rule grown_logAnomaly)
  moreover have "list_all unresolved (recorded (detectAnomalies fs now db) s)"
    by (rule grown_recorded) (rule inv_detectAnomalies [OF grown_invariant])
  ultimately show ?thesis
    by (simp add: list_all_iff unresolved_def)
qed

text \<open>The instance of C9 at the row that the sweep over \<open>cold_db\<close> records.\<close>

theorem recorded_findings_unresolved_witness:
  "cold_finding \<in> set (recorded (detectAnomalies ([], [], []) example_now cold_db)
       empty_state)
   \<and> is_resolved cold_finding = False \<and> resolved_at cold_finding = None
   \<and> resolved_by cold_finding = None \<and> a_notes cold_finding = None"
  using recorded_findings_unresolved [of example_now _ _ _ _ empty_state "([], [], [])" cold_db]
  by (simp add: cold_sweep_recorded)

section \<open>No deduplication: C8\<close>

text \<open>
  C8. The recorder inserts a row at every call, whatever the table holds: called twice
  with the same finding it leaves the row twice. A sweep at \<open>now\<close> followed by a
  sweep at \<open>now'\<close> over the same data, no awaited call failing, adds all the
  findings of the first and then all the findings of the second; with
  \<open>now' = now\<close> every finding is in the table twice.
\<close>

theorem no_deduplication:
  "anomaly_logs (snd (with_faults [] (logAnomaly now ty sev uid det)
       (snd (with_faults [] (logAnomaly now ty sev uid det) s))))
     = anomaly_logs s @ [anomaly_row now ty sev uid det, anomaly_row now ty sev uid det]
   \<and> anomaly_logs (snd (detectAnomalies ([], [], []) now' db
       (snd (detectAnomalies ([], [], []) now db s))))
     = anomaly_logs s @ recorded (detectAnomalies ([], [], []) now db) s
       @ recorded (detectAnomalies ([], [], []) now' db) s"
  by (simp add: logAnomaly_clean_rows sweep_clean_rows sweep_clean_recorded)

text \<open>The instance of C8 at \<open>cold_db\<close>: two sweeps leave the finding twice.\<close>

theorem no_deduplication_witness:
  "anomaly_logs (snd (detectAnomalies ([], [], []) example_now cold_db
       (snd (detectAnomalies ([], [], []) example_now cold_db empty_state))))
     = [cold_finding, cold_finding]"
  using no_deduplication
    [where now = example_now and now' = example_now and s = empty_state and db = cold_db]
  by (simp add: cold_sweep_recorded empty_state_def)

section \<open>Notification and recording: C4\<close>














section \<open>A failing detector: C5\<close>

lemma keeps_invariant: "sweep_invariant (keeps p)"
  unfolding sweep_invariant_def
proof (intro conjI allI impI)
  fix n now ty sev uid det
  have send: "tri (keeps p) (sendNotification n) (keeps p)"
    unfolding sendNotification_def
    apply (rule inv_andThen)
     apply (rule tri_emit)
     apply (simp add: keeps_def)
    apply (rule tri_await)
      apply simp_all
    apply (simp add: keeps_def)
    done
  have log: "tri (keeps p) (logAnomaly now ty sev uid det) (keeps p)"
    unfolding logAnomaly_def create_anomaly_def logger_def
    apply (rule inv_try_catch)
     apply (rule tri_await)
       apply (simp add: keeps_def)
      apply assumption
     apply (simp add: keeps_def)
    apply (rule tri_emit)
    apply (simp add: keeps_def)
    done
  from send log
  show "tri (keeps p) (andThen (sendNotification n) (\<lambda>_. logAnomaly now ty sev uid det))
     (keeps p)"
    by (rule inv_andThen)
qed (simp_all add: keeps_def)

lemma effects_start:
  assumes "tri (keeps (trace s @ [e])) m (keeps (trace s @ [e]))"
  shows "\<exists>es. effects (andThen (emit e) (\<lambda>_. m)) s = e # es"
proof -
  let ?s1 = "s\<lparr>trace := trace s @ [e]\<rparr>"
  have "keeps (trace s @ [e]) ?s1" by (simp add: keeps_def)
  with assms have "keeps (trace s @ [e]) (snd (m ?s1))" by (rule triD)
  then obtain es where "trace (snd (m ?s1)) = (trace s @ [e]) @ es"
    by (auto simp: keeps_def prefix_def)
  moreover have "andThen (emit e) (\<lambda>_. m) s = m ?s1"
    by (simp add: andThen_def emit_def)
  ultimately show ?thesis by (simp add: effects_def)
qed

lemma detectHighValuePurchases_starts:
  "\<exists>es. effects (with_faults f (detectHighValuePurchases now db)) s
     = Logged HighValueStarted # es"
proof -
  let ?p = "trace (s\<lparr>faults := f\<rparr>) @ [Logged HighValueStarted]"
  have inv: "sweep_invariant (keeps ?p)" by (rule keeps_invariant)
  have "\<exists>es. effects (detectHighValuePurchases now db) (s\<lparr>faults := f\<rparr>)
      = Logged HighValueStarted # es"
    unfolding detectHighValuePurchases_def logger_def
    apply (rule effects_start)
    apply (rule inv_try_catch)
     apply (rule inv_andThen [OF inv_query [OF inv]])
     apply (rule tri_forEach)
     apply (rule inv_highValueBody [OF inv])
    apply (rule inv_logger [unfolded logger_def, OF inv])
    done
  then show ?thesis by (simp add: effects_def with_faults_def)
qed

lemma detectAuthenticationFailures_starts:
  "\<exists>es. effects (with_faults f (detectAuthenticationFailures now db)) s
     = Logged AuthFailuresStarted # es"
proof -
  let ?p = "trace (s\<lparr>faults := f\<rparr>) @ [Logged AuthFailuresStarted]"
  have inv: "sweep_invariant (keeps ?p)" by (rule keeps_invariant)
  have "\<exists>es. effects (detectAuthenticationFailures now db) (s\<lparr>faults := f\<rparr>)
      = Logged AuthFailuresStarted # es"
    unfolding detectAuthenticationFailures_def logger_def
    apply (rule effects_start)
    apply (rule inv_try_catch)
     apply (rule inv_andThen [OF inv_query [OF inv]])
     apply (rule tri_forEach)
     apply (rule inv_authFailureBody [OF inv])
    apply (rule inv_logger [unfolded logger_def, OF inv])
    done
  then show ?thesis by (simp add: effects_def with_faults_def)
qed

lemma detectUnusualAccess_starts:
  "\<exists>es. effects (with_faults f (detectUnusualAccess now db)) s
     = Logged UnusualAccessStarted # es"
proof -
  let ?p = "trace (s\<lparr>faults := f\<rparr>) @ [Logged UnusualAccessStarted]"
  have inv: "sweep_invariant (keeps ?p)" by (rule keeps_invariant)
  have "\<exists>es. effects (detectUnusualAccess now db) (s\<lparr>faults := f\<rparr>)
      = Logged UnusualAccessStarted # es"
    unfolding detectUnusualAccess_def logger_def
    apply (rule effects_start)
    apply (rule inv_try_catch)
     apply (rule inv_andThen [OF inv_query [OF inv]])
     apply (rule tri_forEach)
     apply (rule inv_unusualAccessBody [OF inv])
    apply (rule inv_logger [unfolded logger_def, OF inv])
    done
  then show ?thesis by (simp add: effects_def with_faults_def)
qed

lemma trace_append:
  assumes "tri (keeps (trace s)) m (keeps (trace s))"
  shows "trace (snd (m s)) = trace s @ effects m s"
proof -
  have "keeps (trace s) s" by (simp add: keeps_def)
  with assms have "keeps (trace s) (snd (m s))" by (rule triD)
  then show ?thesis by (auto simp: keeps_def prefix_def effects_def)
qed

lemma detector_traces:
  "trace (snd (with_faults f (detectHighValuePurchases now db) s))
     = trace s @ effects (with_faults f (detectHighValuePurchases now db)) s"
  "trace (snd (with_faults f (detectAuthenticationFailures now db) s))
     = trace s @ effects (with_faults f (detectAuthenticationFailures now db)) s"
  "trace (snd (with_faults f (detectUnusualAccess now db) s))
     = trace s @ effects (with_faults f (detectUnusualAccess now db)) s"
  by (rule trace_append, rule inv_with_faults [OF keeps_invariant],
      rule inv_detectHighValuePurchases inv_detectAuthenticationFailures
        inv_detectUnusualAccess, rule keeps_invariant)+

lemma sweep_effects:
  "\<exists>e1 e2 e3.
     effects (detectAnomalies (f1, f2, f3) now db) s
       = Logged SweepStarted
         # (Logged HighValueStarted # e1)
         @ (Logged AuthFailuresStarted # e2)
         @ (Logged UnusualAccessStarted # e3)
         @ [Logged SweepCompleted]"
proof -
  let ?a = "with_faults f1 (detectHighValuePurchases now db)"
  let ?b = "with_faults f2 (detectAuthenticationFailures now db)"
  let ?c = "with_faults f3 (detectUnusualAccess now db)"
  let ?s1 = "s\<lparr>trace := trace s @ [Logged SweepStarted]\<rparr>"
  let ?s2 = "snd (?a ?s1)"
  let ?s3 = "snd (?b ?s2)"
  let ?s4 = "snd (?c ?s3)"
  have all: "fst (promise_all3 ?a ?b ?c ?s1) = Inr ()"
    by (rule fst_promise_all3)
      (simp_all add: with_faults_def detectHighValuePurchases_returns
        detectAuthenticationFailures_returns detectUnusualAccess_returns)
  have "snd (promise_all3 ?a ?b ?c ?s1) = ?s4"
    by (rule snd_promise_all3)
  with all have run: "promise_all3 ?a ?b ?c ?s1 = (Inr (), ?s4)"
    by (simp add: prod_eq_iff)
  have "snd (detectAnomalies (f1, f2, f3) now db s)
      = ?s4\<lparr>trace := trace ?s4 @ [Logged SweepCompleted]\<rparr>"
    unfolding detectAnomalies_def prod.case andThen_logger
    using run by (simp add: andThen_def logger_def emit_def)
  then have "trace (snd (detectAnomalies (f1, f2, f3) now db s))
      = trace ?s4 @ [Logged SweepCompleted]"
    by simp
  also have "trace ?s4 = trace ?s3 @ effects ?c ?s3"
    by (rule detector_traces)
  also have "trace ?s3 = trace ?s2 @ effects ?b ?s2"
    by (rule detector_traces)
  also have "trace ?s2 = trace ?s1 @ effects ?a ?s1"
    by (rule detector_traces)
  finally have "effects (detectAnomalies (f1, f2, f3) now db) s
      = Logged SweepStarted # effects ?a ?s1 @ effects ?b ?s2 @ effects ?c ?s3
        @ [Logged SweepCompleted]"
    by (simp add: effects_def)
  moreover obtain e1 where "effects ?a ?s1 = Logged HighValueStarted # e1"
    using detectHighValuePurchases_starts by blast
  moreover obtain e2 where "effects ?b ?s2 = Logged AuthFailuresStarted # e2"
    using detectAuthenticationFailures_starts by blast
  moreover obtain e3 where "effects ?c ?s3 = Logged UnusualAccessStarted # e3"
    using detectUnusualAccess_starts by blast
  ultimately have "effects (detectAnomalies (f1, f2, f3) now db) s
      = Logged SweepStarted
        # (Logged HighValueStarted # e1)
        @ (Logged AuthFailuresStarted # e2)
        @ (Logged UnusualAccessStarted # e3)
        @ [Logged SweepCompleted]"
    by simp
  then show ?thesis by blast
qed

text \<open>
  C5. Let one detector run under an arbitrary fault script \<open>f\<close> and the other two
  without faults. Whichever detector it is, the sweep returns normally, and the rows it
  records are those recorded by the failing detector together with exactly the findings
  that each of the other two records when run on its own without faults. In every sweep
  each detector is started, and the line that reports the completion of the sweep comes
  after everything the three detectors have done.
\<close>

theorem partial_failure_isolated:
  "fst (detectAnomalies (f, [], []) now db s) = Inr ()
   \<and> fst (detectAnomalies ([], f, []) now db s) = Inr ()
   \<and> fst (detectAnomalies ([], [], f) now db s) = Inr ()
   \<and> (\<exists>xs. recorded (detectAnomalies (f, [], []) now db) s
         = xs @ recorded (with_faults [] (detectAuthenticationFailures now db)) s
              @ recorded (with_faults [] (detectUnusualAccess now db)) s)
   \<and> (\<exists>xs. recorded (detectAnomalies ([], f, []) now db) s
         = recorded (with_faults [] (detectHighValuePurchases now db)) s @ xs
           @ recorded (with_faults [] (detectUnusualAccess now db)) s)
   \<and> (\<exists>xs. recorded (detectAnomalies ([], [], f) now db) s
         = recorded (with_faults [] (detectHighValuePurchases now db)) s
           @ recorded (with_faults [] (detectAuthenticationFailures now db)) s @ xs)
   \<and> (\<forall>f1 f2 f3. \<exists>e1 e2 e3.
         effects (detectAnomalies (f1, f2, f3) now db) s
           = Logged SweepStarted
             # (Logged HighValueStarted # e1)
             @ (Logged AuthFailuresStarted # e2)
             @ (Logged UnusualAccessStarted # e3)
             @ [Logged SweepCompleted])"
proof -
  note clean_rows = recorded_clean [OF clean_detectHighValuePurchases]
    recorded_clean [OF clean_detectAuthenticationFailures]
    recorded_clean [OF clean_detectUnusualAccess]
  have "\<exists>xs. recorded (detectAnomalies (f, [], []) now db) s
         = xs @ recorded (with_faults [] (detectAuthenticationFailures now db)) s
              @ recorded (with_faults [] (detectUnusualAccess now db)) s"
    using sweep_recorded [of f "[]" "[]" now db s]
    by (auto simp: clean_rows)
  moreover have "\<exists>xs. recorded (detectAnomalies ([], f, []) now db) s
         = recorded (with_faults [] (detectHighValuePurchases now db)) s @ xs
           @ recorded (with_faults [] (detectUnusualAccess now db)) s"
    using sweep_recorded [of "[]" f "[]" now db s]
    by (auto simp: clean_rows)
  moreover have "\<exists>xs. recorded (detectAnomalies ([], [], f) now db) s
         = recorded (with_faults [] (detectHighValuePurchases now db)) s
           @ recorded (with_faults [] (detectAuthenticationFailures now db)) s @ xs"
    using sweep_recorded [of "[]" "[]" f now db s]
    by (auto simp: clean_rows)
  ultimately show ?thesis
    using sweep_effects [of _ _ _ now db s]
    by (simp add: detectAnomalies_returns)
qed

text \<open>
  The instance of C5 at \<open>cold_db\<close>, the query of the authentication-failure
  detector failing: the finding of the high-value detector is recorded.
\<close>

theorem partial_failure_isolated_witness:
  "fst (detectAnomalies ([], [True], []) example_now cold_db empty_state) = Inr ()
   \<and> (\<exists>xs. recorded (detectAnomalies ([], [True], []) example_now cold_db) empty_state
         = [cold_finding] @ xs)"
  using partial_failure_isolated [of "[True]" example_now cold_db empty_state]
  by (simp add: recorded_clean [OF clean_detectHighValuePurchases]
      recorded_clean [OF clean_detectUnusualAccess]
      cold_highValueFindings cold_unusualAccessFindings)

section \<open>Administrators: C7\<close>

lemma getAdministrators_clean_run:
  "fst (with_faults [] (getAdministrators db r) s)
     = Inr (map u_id (filter (\<lambda>u. (role u = ''admin'' \<or> role u = r \<or> role u = ''super_admin'')
                                   \<and> is_active u) (test_users db)))"
  by (simp add: run_defs administrators_rows_def)

lemma getAdministrators_failed_run:
  "with_faults (True # bs) (getAdministrators db r) s
     = (Inr [], s\<lparr>faults := bs, trace := trace s @ [Logged (AdministratorsFailed QueryError)]\<rparr>)"
  by (simp add: run_defs)

lemma authFailureBody_lookup_fails:
  "with_faults [True] (authFailureBody now db item) s
     = (Inr (),
        s\<lparr>faults := [],
          anomaly_logs := anomaly_logs s
            @ [auth_failure_finding now (g_ip_address item) (g_user_id item) (g_count item)],
          trace := trace s
            @ [Logged (AuthFailureDetected (g_ip_address item) (g_user_id item) (g_count item)),
               Logged (AdministratorsFailed QueryError),
               NotifierInvoked
                 \<lparr>channels = all_channels, recipients = [], n_severity = High,
                  anomalyType = ''auth_failure'', n_userId = g_user_id item,
                  n_details = AuthFailureDetails (g_ip_address item) (g_count item),
                  n_timestamp = now\<rparr>,
               RowInserted
                 (auth_failure_finding now (g_ip_address item) (g_user_id item)
                    (g_count item))]\<rparr>)"
  by (simp add: authFailureBody_def run_defs auth_failure_finding_def)

lemma highValueBody_lookup_fails:
  "recorded (with_faults [False, True] (highValueBody now db purchase)) s
     = recorded (with_faults [] (highValueBody now db purchase)) s"
  by (simp add: highValueBody_def run_defs recorded_def Let_def)

lemma unusualAccessBody_lookup_fails:
  "recorded (with_faults [False, False, True] (unusualAccessBody now db entry)) s
     = recorded (with_faults [] (unusualAccessBody now db entry)) s"
  by (cases entry) (simp add: unusualAccessBody_def run_defs recorded_def Let_def)

lemma highValueBody_clean_recorded:
  "recorded (with_faults [] (highValueBody now db purchase)) s
     = (if exceeds_baseline now db purchase then [high_purchase_finding now db purchase]
        else [])"
  using recorded_clean [OF clean_highValueBody, of now db purchase s]
  by (simp add: highValue_rows_rule)

text \<open>
  C7. When its query succeeds the lookup returns the ids of exactly the active users
  whose role is \<open>admin\<close>, the required role or \<open>super_admin\<close>. When its
  query fails it logs the error and returns the empty list without throwing. An empty
  list of recipients does not keep a finding from being recorded: in each detector, the
  turn of the loop in which the lookup fails calls the notifier with no recipients and
  records what it records when the lookup succeeds, whoever the administrators are.
\<close>

theorem administrators_lookup:
  "fst (with_faults [] (getAdministrators db r) s)
     = Inr (map u_id (filter (\<lambda>u. (role u = ''admin'' \<or> role u = r \<or> role u = ''super_admin'')
                                   \<and> is_active u) (test_users db)))
   \<and> with_faults (True # bs) (getAdministrators db r) s
     = (Inr [], s\<lparr>faults := bs,
                  trace := trace s @ [Logged (AdministratorsFailed QueryError)]\<rparr>)
   \<and> recorded (with_faults [True] (authFailureBody now db item)) s
     = [auth_failure_finding now (g_ip_address item) (g_user_id item) (g_count item)]
   \<and> NotifierInvoked
        \<lparr>channels = all_channels, recipients = [], n_severity = High,
         anomalyType = ''auth_failure'', n_userId = g_user_id item,
         n_details = AuthFailureDetails (g_ip_address item) (g_count item),
         n_timestamp = now\<rparr>
       \<in> set (effects (with_faults [True] (authFailureBody now db item)) s)
   \<and> recorded (with_faults [] (authFailureBody now db item)) s
     = [auth_failure_finding now (g_ip_address item) (g_user_id item) (g_count item)]
   \<and> recorded (with_faults [False, True] (highValueBody now db purchase)) s
     = (if exceeds_baseline now db purchase then [high_purchase_finding now db purchase]
        else [])
   \<and> recorded (with_faults [False, False, True] (unusualAccessBody now db entry)) s
     = recorded (with_faults [] (unusualAccessBody now db entry)) s"
  by (simp add: getAdministrators_clean_run getAdministrators_failed_run
      authFailureBody_lookup_fails recorded_def [of "with_faults [True] _"] effects_def
      recorded_clean [OF clean_authFailureBody] highValueBody_lookup_fails
      highValueBody_clean_recorded unusualAccessBody_lookup_fails)

text \<open>The instance of C7 at \<open>cold_db\<close>.\<close>

theorem administrators_lookup_witness:
  "fst (with_faults [] (getAdministrators cold_db ''purchase_admin'') empty_state)
     = Inr [user2]
   \<and> fst (with_faults [True] (getAdministrators cold_db ''purchase_admin'') empty_state)
     = Inr []
   \<and> recorded (with_faults [False, True] (highValueBody example_now cold_db cold_order))
        empty_state
     = [cold_finding]"
  using administrators_lookup
    [of cold_db "''purchase_admin''" empty_state "[]" example_now _ cold_order]
  by (simp add: cold_db_def cold_order_def exceeds_baseline_def baseline_average_def
      baseline_maximum_def cold_baseline [unfolded cold_db_def cold_order_def]
      high_purchase_finding_def cold_finding_def)

end
